theory Spec2Isabelle
  imports Main
begin

section \<open>Text Annotator (src/lib/api.ts, parseHashtags / parseMentions / parseUrls)\<close>

text \<open>
  A JavaScript string is modelled as a \<^typ>\<open>string\<close>: a list of code units below 256
  (the Latin-1 range). The three regular expressions of the source only name ASCII
  characters, so every code unit outside the classes below behaves like any other
  non-word, non-space character.
\<close>

definition code_unit :: "char \<Rightarrow> nat" where
  "code_unit c = of_char c"

text \<open>The class \<open>\w\<close> of a JavaScript regular expression without the unicode flag.\<close>

definition isWord :: "char \<Rightarrow> bool" where
  "isWord c =
     (let n = code_unit c
      in (65 \<le> n \<and> n \<le> 90) \<or> (97 \<le> n \<and> n \<le> 122) \<or> (48 \<le> n \<and> n \<le> 57) \<or> n = 95)"

text \<open>The class \<open>\s\<close>, restricted to the code units below 256: tab, line feed, vertical tab,
  form feed, carriage return, space and the no-break space.\<close>

definition isSpace :: "char \<Rightarrow> bool" where
  "isSpace c = (let n = code_unit c in (9 \<le> n \<and> n \<le> 13) \<or> n = 32 \<or> n = 160)"

definition isUpperAscii :: "char \<Rightarrow> bool" where
  "isUpperAscii c = (let n = code_unit c in 65 \<le> n \<and> n \<le> 90)"

text \<open>\<open>String.prototype.toLowerCase\<close> on one code unit below 256: the letters A-Z and the
  Latin-1 capitals (192-222 without the multiplication sign 215) move up by 32.\<close>

definition toLowerChar :: "char \<Rightarrow> char" where
  "toLowerChar c =
     (let n = code_unit c
      in if (65 \<le> n \<and> n \<le> 90) \<or> (192 \<le> n \<and> n \<le> 222 \<and> n \<noteq> 215)
         then char_of (n + 32) else c)"

definition toLowerCase :: "string \<Rightarrow> string" where
  "toLowerCase s = map toLowerChar s"

text \<open>
  \<open>content.match(/X(\w+)/g)\<close> for a one-character sigil \<open>X\<close>: the scan goes left to right;
  at a sigil followed by at least one word character the match is the sigil with the
  longest run of word characters, and the scan resumes behind it; anywhere else it moves
  on by one character. The result \<open>null\<close> of a scan without a match is the empty list
  (the source maps \<open>null\<close> to \<open>[]\<close>).
\<close>

function match_sigil :: "char \<Rightarrow> string \<Rightarrow> string list" where
  "match_sigil x [] = []"
| "match_sigil x (c # cs) =
     (if c = x \<and> takeWhile isWord cs \<noteq> []
      then (c # takeWhile isWord cs) # match_sigil x (dropWhile isWord cs)
      else match_sigil x cs)"
  by pat_completeness auto
termination
  by (relation "measure (\<lambda>(x, cs). length cs)") (auto simp: less_Suc_eq_le length_dropWhile_le)

text \<open>\<open>m.slice(1)\<close> on a match.\<close>

definition slice1 :: "string \<Rightarrow> string" where
  "slice1 m = drop 1 m"

definition parseHashtags :: "string \<Rightarrow> string list" where
  "parseHashtags content = map (\<lambda>tag. toLowerCase (slice1 tag)) (match_sigil (CHR ''#'') content)"

definition parseMentions :: "string \<Rightarrow> string list" where
  "parseMentions content = map (\<lambda>m. toLowerCase (slice1 m)) (match_sigil (CHR ''@'') content)"

text \<open>
  \<open>content.match(/(https?:\/\/[^\s]+)/g)\<close>: a match starts with \<open>https://\<close> or
  \<open>http://\<close> (the optional \<open>s\<close> is tried first; no text starts with both) and goes on
  through the longest non-empty run of non-space characters.
\<close>

definition url_scheme :: "string \<Rightarrow> (string \<times> string) option" where
  "url_scheme cs =
     (if take 8 cs = ''https://'' then Some (''https://'', drop 8 cs)
      else if take 7 cs = ''http://'' then Some (''http://'', drop 7 cs)
      else None)"

function match_url :: "string \<Rightarrow> string list" where
  "match_url [] = []"
| "match_url (c # cs) =
     (case url_scheme (c # cs) of
        None \<Rightarrow> match_url cs
      | Some (scheme, rest) \<Rightarrow>
          if takeWhile (\<lambda>d. \<not> isSpace d) rest \<noteq> []
          then (scheme @ takeWhile (\<lambda>d. \<not> isSpace d) rest)
                 # match_url (dropWhile (\<lambda>d. \<not> isSpace d) rest)
          else match_url cs)"
  by pat_completeness auto
termination
proof (relation "measure length", goal_cases)
  case 1
  show ?case by simp
next
  case (2 c cs)
  show ?case by simp
next
  case (3 c cs x2 scheme rest)
  then have "url_scheme (c # cs) = Some (scheme, rest)" by simp
  then have "rest = drop 8 (c # cs) \<or> rest = drop 7 (c # cs)"
    by (auto simp: url_scheme_def split: if_splits)
  then have "length rest \<le> length cs" by auto
  moreover have "length (dropWhile (\<lambda>d. \<not> isSpace d) rest) \<le> length rest"
    by (rule length_dropWhile_le)
  ultimately show ?case by simp
next
  case (4 c cs x2 scheme rest)
  show ?case by simp
qed

definition parseUrls :: "string \<Rightarrow> string list" where
  "parseUrls content = match_url content"

text \<open>\<open>Array.from(new Set(xs))\<close>: the distinct elements in the order of their first
  occurrence.\<close>

fun array_from_set :: "'a list \<Rightarrow> 'a list" where
  "array_from_set [] = []"
| "array_from_set (x # xs) = x # array_from_set (filter (\<lambda>y. y \<noteq> x) xs)"

subsection \<open>The extraction results as the specification words them\<close>

text \<open>
  Following the specification (4.1), "every maximal match of the sigil followed by
  one-or-more word characters": at every position of the text, in the order of the
  positions, the sigil with the whole run of word characters behind it, when that run is
  not empty. No position is skipped.
\<close>

definition sigil_at :: "char \<Rightarrow> string \<Rightarrow> string list" where
  "sigil_at x s =
     (case s of
        [] \<Rightarrow> []
      | c # cs \<Rightarrow> if c = x \<and> takeWhile isWord cs \<noteq> [] then [c # takeWhile isWord cs] else [])"

fun sigil_occurrences :: "char \<Rightarrow> string \<Rightarrow> string list" where
  "sigil_occurrences x [] = []"
| "sigil_occurrences x (c # cs) = sigil_at x (c # cs) @ sigil_occurrences x cs"

text \<open>
  Following the specification (4.1), "every maximal match of http:// or https:// followed
  by non-whitespace": the text is cut at its whitespace characters into words, and each
  word, in order, gives at most one URL: the rest of the word from the first position
  where \<open>http://\<close> or \<open>https://\<close> stands with at least one character behind it.
\<close>

function words_of :: "string \<Rightarrow> string list" where
  "words_of s =
     (case dropWhile (\<lambda>d. \<not> isSpace d) s of
        [] \<Rightarrow> [takeWhile (\<lambda>d. \<not> isSpace d) s]
      | sp # rest \<Rightarrow> takeWhile (\<lambda>d. \<not> isSpace d) s # words_of rest)"
  by pat_completeness auto
termination
proof (relation "measure length", goal_cases)
  case 1
  show ?case by simp
next
  case (2 s sp rest)
  have "length (dropWhile (\<lambda>d. \<not> isSpace d) s) \<le> length s"
    by (rule length_dropWhile_le)
  with 2 show ?case by simp
qed

fun url_in_word :: "string \<Rightarrow> string list" where
  "url_in_word [] = []"
| "url_in_word (c # cs) =
     (case url_scheme (c # cs) of
        None \<Rightarrow> url_in_word cs
      | Some (scheme, rest) \<Rightarrow> if rest \<noteq> [] then [c # cs] else url_in_word cs)"

definition spec_urls :: "string \<Rightarrow> string list" where
  "spec_urls s = concat (map url_in_word (words_of s))"

section \<open>The relational store (src/supabase/migrations/..._create_micro_twitter_schema.sql)\<close>

text \<open>
  Keys of type \<open>uuid\<close> are natural numbers and \<open>timestamptz\<close> values are integers (the
  order is all the code uses). Each table is the list of its rows; only the columns that
  the modelled functions read or write are kept.
\<close>

type_synonym uuid = nat
type_synonym timestamptz = int

record profile =
  profile_id :: uuid
  profile_handle :: string
  profile_name :: string
  profile_avatar_url :: "string option"

text \<open>\<open>is_deleted boolean DEFAULT false\<close> has no \<open>NOT NULL\<close>: the column is nullable.
  \<open>created_at\<close> is set by its default \<open>now()\<close> on every insert the code makes, and is
  taken as present.\<close>

record post =
  post_id :: uuid
  post_user_id :: uuid
  post_content :: string
  post_image_url :: "string option"
  post_is_deleted :: "bool option"
  post_created_at :: timestamptz

record follow =
  follow_id :: uuid
  follow_follower_id :: uuid
  follow_following_id :: uuid

record like =
  like_id :: uuid
  like_user_id :: uuid
  like_post_id :: uuid

record hashtag =
  hashtag_id :: uuid
  hashtag_tag :: string

record mention =
  mention_id :: uuid
  mention_post_id :: uuid
  mention_user_id :: uuid

record link_preview =
  link_preview_id :: uuid
  link_preview_url :: string

datatype store_error =
  DuplicateKey | CheckViolation | ForeignKeyViolation | MultipleRows | InvalidText | Refused

datatype table_name =
  Profiles | Posts | Follows | Likes | Hashtags | PostHashtags | Mentions | LinkPreviews | PostLinks

datatype verb = Select | Insert | Delete

text \<open>
  The world a call runs in: the tables, the clock that \<open>now()\<close> reads, the requests that
  the store answers with an error for a reason outside the table constraints (a transport
  failure, a row-level-security denial), and the lines written by \<open>console.error\<close> (the
  label and the store's error). The junction tables \<open>post_hashtags\<close> and \<open>post_links\<close>
  hold pairs (post id, hashtag id) and (post id, link preview id). The row-level-security
  policies of the schema are not evaluated: a write they deny is one of the requests that
  \<open>fault\<close> answers with an error.
\<close>

record world =
  profiles :: "profile list"
  posts :: "post list"
  follows :: "follow list"
  likes :: "like list"
  hashtags :: "hashtag list"
  post_hashtags :: "(uuid \<times> uuid) list"
  mentions :: "mention list"
  link_previews :: "link_preview list"
  post_links :: "(uuid \<times> uuid) list"
  clock :: timestamptz
  fault :: "table_name \<Rightarrow> verb \<Rightarrow> store_error option"
  console :: "(string \<times> store_error) list"

text \<open>A value of type \<open>text\<close> cannot hold the code unit 0: the store refuses a row with
  such a string before it looks at any constraint.\<close>

definition valid_text :: "string \<Rightarrow> bool" where
  "valid_text s = list_all (\<lambda>c. code_unit c \<noteq> 0) s"

text \<open>\<open>uuid_generate_v4()\<close>: a key that no row of the table has.\<close>

definition fresh_uuid :: "uuid list \<Rightarrow> uuid" where
  "fresh_uuid ids = Suc (fold max ids 0)"

definition console_error :: "string \<Rightarrow> store_error \<Rightarrow> world \<Rightarrow> world" where
  "console_error label e w = w\<lparr>console := console w @ [(label, e)]\<rparr>"

text \<open>\<open>.maybeSingle()\<close>: no row is \<open>null\<close>, one row is that row, more rows are an error.\<close>

definition maybeSingle :: "'a list \<Rightarrow> store_error + 'a option" where
  "maybeSingle rows =
     (case rows of [] \<Rightarrow> Inr None | [r] \<Rightarrow> Inr (Some r) | _ \<Rightarrow> Inl MultipleRows)"

text \<open>\<open>INSERT ... ON CONFLICT DO NOTHING\<close> on a table whose rows are their own key: a row
  that is there already (or came earlier in the same statement) is skipped.\<close>

fun insert_ignore :: "'a list \<Rightarrow> 'a list \<Rightarrow> 'a list" where
  "insert_ignore tbl [] = tbl"
| "insert_ignore tbl (r # rs) = insert_ignore (if r \<in> set tbl then tbl else tbl @ [r]) rs"

subsection \<open>posts\<close>

text \<open>Constraints \<open>content_length\<close> and the foreign key \<open>user_id\<close>; \<open>is_deleted\<close> and
  \<open>created_at\<close> take their defaults.\<close>

definition insert_post :: "world \<Rightarrow> uuid \<Rightarrow> string \<Rightarrow> string option \<Rightarrow> (store_error + post) \<times> world" where
  "insert_post w userId content image_url =
     (case fault w Posts Insert of
        Some e \<Rightarrow> (Inl e, w)
      | None \<Rightarrow>
          if \<not> (valid_text content \<and> (case image_url of None \<Rightarrow> True | Some u \<Rightarrow> valid_text u))
          then (Inl InvalidText, w)
          else if \<not> (0 < length content \<and> length content \<le> 280) then (Inl CheckViolation, w)
          else if userId \<notin> set (map profile_id (profiles w)) then (Inl ForeignKeyViolation, w)
          else
            let row = \<lparr>post_id = fresh_uuid (map post_id (posts w)), post_user_id = userId,
                       post_content = content, post_image_url = image_url,
                       post_is_deleted = Some False, post_created_at = clock w\<rparr>
            in (Inr row, w\<lparr>posts := posts w @ [row]\<rparr>))"

text \<open>\<open>.order('created_at', { ascending: false })\<close>: newest first. The store leaves the
  order of rows with equal \<open>created_at\<close> open; here they keep their table order (the sort
  is stable).\<close>

definition order_created_at_desc :: "post list \<Rightarrow> post list" where
  "order_created_at_desc ps = sort_key (\<lambda>p. - post_created_at p) ps"

text \<open>
  The feed query: \<open>.eq('is_deleted', false)\<close>, the author filter, \<open>.lt('created_at', cursor)\<close>
  when a cursor was added to the query, the order and \<open>.limit(limit)\<close>. The store applies
  filters, then the order, then the limit, whatever the order of the builder calls.
\<close>

definition select_posts ::
  "world \<Rightarrow> (post \<Rightarrow> bool) \<Rightarrow> timestamptz option \<Rightarrow> nat \<Rightarrow> store_error + post list" where
  "select_posts w author cursor limit =
     (case fault w Posts Select of
        Some e \<Rightarrow> Inl e
      | None \<Rightarrow>
          Inr (take limit (order_created_at_desc
            (filter (\<lambda>p. author p \<and> post_is_deleted p = Some False \<and>
                          (case cursor of None \<Rightarrow> True | Some c \<Rightarrow> post_created_at p < c))
               (posts w)))))"

text \<open>A row of a feed page: the post's columns, the embedded \<open>profiles:user_id (...)\<close>
  object and, where the select asks for \<open>likes:likes(count)\<close>, the number of likes.\<close>

record feed_row =
  row_post :: post
  row_profiles :: "profile option"
  row_likes :: "nat option"

definition embed_profiles :: "world \<Rightarrow> post \<Rightarrow> profile option" where
  "embed_profiles w p = find (\<lambda>pr. profile_id pr = post_user_id p) (profiles w)"

definition embed_likes_count :: "world \<Rightarrow> post \<Rightarrow> nat" where
  "embed_likes_count w p = length (filter (\<lambda>l. like_post_id l = post_id p) (likes w))"

subsection \<open>follows\<close>

definition select_following :: "world \<Rightarrow> uuid \<Rightarrow> store_error + uuid list" where
  "select_following w userId =
     (case fault w Follows Select of
        Some e \<Rightarrow> Inl e
      | None \<Rightarrow> Inr (map follow_following_id
                       (filter (\<lambda>f. follow_follower_id f = userId) (follows w))))"

definition delete_follows :: "world \<Rightarrow> uuid \<Rightarrow> uuid \<Rightarrow> (store_error + unit) \<times> world" where
  "delete_follows w followerId followingId =
     (case fault w Follows Delete of
        Some e \<Rightarrow> (Inl e, w)
      | None \<Rightarrow>
          (Inr (), w\<lparr>follows := filter (\<lambda>f. \<not> (follow_follower_id f = followerId \<and>
                                               follow_following_id f = followingId)) (follows w)\<rparr>))"

subsection \<open>hashtags and post_hashtags\<close>

definition select_hashtag :: "world \<Rightarrow> string \<Rightarrow> store_error + hashtag option" where
  "select_hashtag w tag =
     (case fault w Hashtags Select of
        Some e \<Rightarrow> Inl e
      | None \<Rightarrow> maybeSingle (filter (\<lambda>h. hashtag_tag h = tag) (hashtags w)))"

text \<open>The constraints of \<open>hashtags\<close>: \<open>tag_format\<close> (one or more of \<open>[a-zA-Z0-9_]\<close>), checked
  on the new row, then \<open>UNIQUE (tag)\<close>, checked when the row enters the index.\<close>

definition hashtags_insert :: "world \<Rightarrow> string \<Rightarrow> (store_error + hashtag) \<times> world" where
  "hashtags_insert w tag =
     (if \<not> valid_text tag then (Inl InvalidText, w)
      else if tag = [] \<or> \<not> list_all isWord tag then (Inl CheckViolation, w)
      else if tag \<in> set (map hashtag_tag (hashtags w)) then (Inl DuplicateKey, w)
      else
        let row = \<lparr>hashtag_id = fresh_uuid (map hashtag_id (hashtags w)), hashtag_tag = tag\<rparr>
        in (Inr row, w\<lparr>hashtags := hashtags w @ [row]\<rparr>))"

definition insert_hashtag :: "world \<Rightarrow> string \<Rightarrow> (store_error + hashtag) \<times> world" where
  "insert_hashtag w tag =
     (case fault w Hashtags Insert of
        Some e \<Rightarrow> (Inl e, w)
      | None \<Rightarrow> hashtags_insert w tag)"

text \<open>
  Other clients of the store: the tags in \<open>rivals\<close> are inserted by concurrent writers
  while this client is between two of its requests. A rival whose insert fails changes
  nothing.
\<close>

fun other_writers :: "string list \<Rightarrow> world \<Rightarrow> world" where
  "other_writers [] w = w"
| "other_writers (t # ts) w = other_writers ts (snd (hashtags_insert w t))"

text \<open>\<open>.upsert(rows, { onConflict: 'post_id,hashtag_id', ignoreDuplicates: true })\<close>: one
  statement; the foreign keys are checked for the rows that are really inserted.\<close>

definition upsert_post_hashtags :: "world \<Rightarrow> (uuid \<times> uuid) list \<Rightarrow> (store_error + unit) \<times> world" where
  "upsert_post_hashtags w rows =
     (case fault w PostHashtags Insert of
        Some e \<Rightarrow> (Inl e, w)
      | None \<Rightarrow>
          if \<not> list_all (\<lambda>(p, h). (p, h) \<in> set (post_hashtags w) \<or>
                  (p \<in> set (map post_id (posts w)) \<and> h \<in> set (map hashtag_id (hashtags w)))) rows
          then (Inl ForeignKeyViolation, w)
          else (Inr (), w\<lparr>post_hashtags := insert_ignore (post_hashtags w) rows\<rparr>))"

subsection \<open>profiles and mentions\<close>

text \<open>\<open>.from('profiles').select('id, handle').in('handle', handles)\<close>: equality on
  \<open>text\<close> is exact, so it distinguishes upper and lower case.\<close>

definition select_profiles_in :: "world \<Rightarrow> string list \<Rightarrow> store_error + profile list" where
  "select_profiles_in w handles =
     (case fault w Profiles Select of
        Some e \<Rightarrow> Inl e
      | None \<Rightarrow> Inr (filter (\<lambda>p. profile_handle p \<in> set handles) (profiles w)))"

text \<open>A plain multi-row \<open>insert\<close> into \<open>mentions\<close>: the table has a generated primary key
  and two foreign keys, and no unique constraint on (post_id, user_id).\<close>

fun mentions_append :: "mention list \<Rightarrow> (uuid \<times> uuid) list \<Rightarrow> mention list" where
  "mentions_append tbl [] = tbl"
| "mentions_append tbl ((p, u) # rows) =
     mentions_append
       (tbl @ [\<lparr>mention_id = fresh_uuid (map mention_id tbl), mention_post_id = p,
                 mention_user_id = u\<rparr>]) rows"

definition insert_mentions :: "world \<Rightarrow> (uuid \<times> uuid) list \<Rightarrow> (store_error + unit) \<times> world" where
  "insert_mentions w rows =
     (case fault w Mentions Insert of
        Some e \<Rightarrow> (Inl e, w)
      | None \<Rightarrow>
          if \<not> list_all (\<lambda>(p, u). p \<in> set (map post_id (posts w)) \<and>
                                  u \<in> set (map profile_id (profiles w))) rows
          then (Inl ForeignKeyViolation, w)
          else (Inr (), w\<lparr>mentions := mentions_append (mentions w) rows\<rparr>))"

subsection \<open>link_previews and post_links\<close>

definition select_link_preview :: "world \<Rightarrow> string \<Rightarrow> store_error + link_preview option" where
  "select_link_preview w url =
     (case fault w LinkPreviews Select of
        Some e \<Rightarrow> Inl e
      | None \<Rightarrow> maybeSingle (filter (\<lambda>l. link_preview_url l = url) (link_previews w)))"

definition insert_link_preview :: "world \<Rightarrow> string \<Rightarrow> (store_error + link_preview) \<times> world" where
  "insert_link_preview w url =
     (case fault w LinkPreviews Insert of
        Some e \<Rightarrow> (Inl e, w)
      | None \<Rightarrow>
          if \<not> valid_text url then (Inl InvalidText, w)
          else if url \<in> set (map link_preview_url (link_previews w)) then (Inl DuplicateKey, w)
          else
            let row = \<lparr>link_preview_id = fresh_uuid (map link_preview_id (link_previews w)),
                       link_preview_url = url\<rparr>
            in (Inr row, w\<lparr>link_previews := link_previews w @ [row]\<rparr>))"

definition upsert_post_links :: "world \<Rightarrow> (uuid \<times> uuid) list \<Rightarrow> (store_error + unit) \<times> world" where
  "upsert_post_links w rows =
     (case fault w PostLinks Insert of
        Some e \<Rightarrow> (Inl e, w)
      | None \<Rightarrow>
          if \<not> list_all (\<lambda>(p, l). (p, l) \<in> set (post_links w) \<or>
                  (p \<in> set (map post_id (posts w)) \<and>
                   l \<in> set (map link_preview_id (link_previews w)))) rows
          then (Inl ForeignKeyViolation, w)
          else (Inr (), w\<lparr>post_links := insert_ignore (post_links w) rows\<rparr>))"

section \<open>The API functions (src/lib/api.ts)\<close>

text \<open>
  An \<open>async\<close> function that changes the store takes the world and returns its outcome
  (\<open>Inl\<close> the error it throws, \<open>Inr\<close> the value it resolves to) with the world it leaves.
  A function that only reads returns its outcome.
\<close>

subsection \<open>Feeds\<close>

text \<open>\<open>cursor\<close> is \<open>None\<close> for an argument that \<open>if (cursor)\<close> takes as false (left out, or
  the empty string); \<open>limit\<close> is \<open>None\<close> when the argument is left out and the default
  applies.\<close>

definition default_limit :: "nat option \<Rightarrow> nat" where
  "default_limit limit = (case limit of None \<Rightarrow> 20 | Some n \<Rightarrow> n)"

text \<open>Lines 49-55 of \<open>getHomeFeed\<close>: \<open>following.data?.map(...) || []\<close> followed by
  \<open>followingIds.push(userId)\<close>. An error of this first query is not looked at.\<close>

definition followingIds :: "world \<Rightarrow> uuid \<Rightarrow> uuid list" where
  "followingIds w userId =
     (case select_following w userId of Inl e \<Rightarrow> [] | Inr ids \<Rightarrow> ids) @ [userId]"

definition getHomeFeed ::
  "world \<Rightarrow> uuid \<Rightarrow> timestamptz option \<Rightarrow> nat option \<Rightarrow> store_error + feed_row list" where
  "getHomeFeed w userId cursor limit =
     (let ids = followingIds w userId
      in if length ids = 0 then Inr []
         else
           case select_posts w (\<lambda>p. post_user_id p \<in> set ids) cursor (default_limit limit) of
             Inl error \<Rightarrow> Inl error
           | Inr data \<Rightarrow>
               Inr (map (\<lambda>p. \<lparr>row_post = p, row_profiles = embed_profiles w p,
                                row_likes = None\<rparr>) data))"

definition getUserPosts ::
  "world \<Rightarrow> uuid \<Rightarrow> timestamptz option \<Rightarrow> nat option \<Rightarrow> store_error + feed_row list" where
  "getUserPosts w userId cursor limit =
     (case select_posts w (\<lambda>p. post_user_id p = userId) cursor (default_limit limit) of
        Inl error \<Rightarrow> Inl error
      | Inr data \<Rightarrow>
          Inr (map (\<lambda>p. \<lparr>row_post = p, row_profiles = embed_profiles w p,
                           row_likes = Some (embed_likes_count w p)\<rparr>) data))"

subsection \<open>Follows\<close>

definition unfollowUser :: "uuid \<Rightarrow> uuid \<Rightarrow> world \<Rightarrow> (store_error + unit) \<times> world" where
  "unfollowUser followerId followingId w =
     (case delete_follows w followerId followingId of
        (Inl error, w') \<Rightarrow> (Inl error, w')
      | (Inr u, w') \<Rightarrow> (Inr (), w'))"

subsection \<open>Enrichment\<close>

text \<open>
  \<open>getOrCreateHashtag\<close>: the lookup's error is not looked at (only \<open>data\<close> is taken), so
  every answer but a row leads to the insert. \<open>rivals\<close> are the tags other clients insert
  between this call's lookup and its insert.
\<close>

definition getOrCreateHashtag :: "string list \<Rightarrow> string \<Rightarrow> world \<Rightarrow> (store_error + hashtag) \<times> world" where
  "getOrCreateHashtag rivals tag w =
     (let normalizedTag = toLowerCase tag
      in case select_hashtag w normalizedTag of
           Inr (Some existing) \<Rightarrow> (Inr existing, w)
         | _ \<Rightarrow>
             (case insert_hashtag (other_writers rivals w) normalizedTag of
                (Inl error, w') \<Rightarrow> (Inl error, w')
              | (Inr data, w') \<Rightarrow> (Inr data, w')))"

text \<open>
  \<open>Promise.all(tags.map((t) => getOrCreateHashtag(t)))\<close>: every call runs to its end,
  also after another one has failed; the result is the list of rows, or the error of a
  call that failed (here the first one in the order of the tags). The calls are run
  one after the other in the order of the tags.
\<close>

fun promise_all_hashtags :: "string list \<Rightarrow> string list \<Rightarrow> world \<Rightarrow> (store_error + hashtag list) \<times> world" where
  "promise_all_hashtags rivals [] w = (Inr [], w)"
| "promise_all_hashtags rivals (t # ts) w =
     (case getOrCreateHashtag rivals t w of
        (r, w1) \<Rightarrow>
          (case promise_all_hashtags rivals ts w1 of
             (rs, w2) \<Rightarrow>
               (case r of
                  Inl e \<Rightarrow> (Inl e, w2)
                | Inr h \<Rightarrow> (case rs of Inl e \<Rightarrow> (Inl e, w2) | Inr hs \<Rightarrow> (Inr (h # hs), w2)))))"

definition linkHashtags :: "string list \<Rightarrow> uuid \<Rightarrow> string \<Rightarrow> world \<Rightarrow> (store_error + unit) \<times> world" where
  "linkHashtags rivals postId content w =
     (let tags = array_from_set (parseHashtags content)
      in if length tags = 0 then (Inr (), w)
         else
           case promise_all_hashtags rivals tags w of
             (Inl e, w1) \<Rightarrow> (Inl e, w1)
           | (Inr hashtagRows, w1) \<Rightarrow>
               let rows = map (\<lambda>h. (postId, hashtag_id h)) hashtagRows
               in case upsert_post_hashtags w1 rows of
                    (Inl error, w2) \<Rightarrow> (Inr (), console_error ''post_hashtags error:'' error w2)
                  | (Inr u, w2) \<Rightarrow> (Inr (), w2))"

definition insertMentions :: "uuid \<Rightarrow> string \<Rightarrow> world \<Rightarrow> (store_error + unit) \<times> world" where
  "insertMentions postId content w =
     (let handles = array_from_set (parseMentions content)
      in if length handles = 0 then (Inr (), w)
         else
           case select_profiles_in w handles of
             Inl error \<Rightarrow> (Inr (), console_error ''mentions profiles error:'' error w)
           | Inr profs \<Rightarrow>
               if length profs = 0 then (Inr (), w)
               else
                 let rows = map (\<lambda>p. (postId, profile_id p)) profs
                 in case insert_mentions w rows of
                      (Inl insertErr, w1) \<Rightarrow>
                        (Inr (), console_error ''mentions insert error:'' insertErr w1)
                    | (Inr u, w1) \<Rightarrow> (Inr (), w1))"

text \<open>The \<open>for\<close> loop of \<open>linkUrls\<close>, with \<open>previewIds\<close> as the accumulator.\<close>

fun linkUrls_loop :: "string list \<Rightarrow> uuid list \<Rightarrow> world \<Rightarrow> uuid list \<times> world" where
  "linkUrls_loop [] previewIds w = (previewIds, w)"
| "linkUrls_loop (url # urls) previewIds w =
     (case select_link_preview w url of
        Inr (Some existing) \<Rightarrow> linkUrls_loop urls (previewIds @ [link_preview_id existing]) w
      | _ \<Rightarrow>
          (case insert_link_preview w url of
             (Inl error, w1) \<Rightarrow>
               linkUrls_loop urls previewIds (console_error ''link_previews insert error:'' error w1)
           | (Inr created, w1) \<Rightarrow>
               linkUrls_loop urls (previewIds @ [link_preview_id created]) w1))"

definition linkUrls :: "uuid \<Rightarrow> string \<Rightarrow> world \<Rightarrow> (store_error + unit) \<times> world" where
  "linkUrls postId content w =
     (let urls = array_from_set (parseUrls content)
      in if length urls = 0 then (Inr (), w)
         else
           case linkUrls_loop urls [] w of
             (previewIds, w1) \<Rightarrow>
               if length previewIds = 0 then (Inr (), w1)
               else
                 let rows = map (\<lambda>i. (postId, i)) previewIds
                 in case upsert_post_links w1 rows of
                      (Inl error, w2) \<Rightarrow>
                        (Inr (), console_error ''post_links upsert error:'' error w2)
                    | (Inr u, w2) \<Rightarrow> (Inr (), w2))"

subsection \<open>Post creation\<close>

text \<open>
  \<open>imageUrl || null\<close> turns a missing and an empty \<open>imageUrl\<close> into \<open>null\<close>.
  \<open>Promise.allSettled\<close> starts the three enrichment calls and waits for all of them; its
  array of outcomes is not read. The three calls write to disjoint tables, and they are
  run here in the order of the array.
\<close>

definition or_null :: "string option \<Rightarrow> string option" where
  "or_null imageUrl = (case imageUrl of None \<Rightarrow> None | Some u \<Rightarrow> if u = [] then None else Some u)"

definition createPost ::
  "string list \<Rightarrow> uuid \<Rightarrow> string \<Rightarrow> string option \<Rightarrow> world \<Rightarrow> (store_error + post) \<times> world" where
  "createPost rivals userId content imageUrl w =
     (case insert_post w userId content (or_null imageUrl) of
        (Inl postError, w0) \<Rightarrow> (Inl postError, w0)
      | (Inr post, w0) \<Rightarrow>
          (case linkHashtags rivals (post_id post) content w0 of
             (r1, w1) \<Rightarrow>
               (case insertMentions (post_id post) content w1 of
                  (r2, w2) \<Rightarrow>
                    (case linkUrls (post_id post) content w2 of
                       (r3, w3) \<Rightarrow> (Inr post, w3)))))"

section \<open>Observations on the store\<close>

text \<open>The profiles that the batch lookup of \<open>insertMentions\<close> resolves for a text.\<close>

definition resolved_profiles :: "world \<Rightarrow> string \<Rightarrow> profile list" where
  "resolved_profiles w content =
     filter (\<lambda>p. profile_handle p \<in> set (array_from_set (parseMentions content))) (profiles w)"

text \<open>The number of mention rows for a post and a user.\<close>

definition mention_count :: "world \<Rightarrow> uuid \<Rightarrow> uuid \<Rightarrow> nat" where
  "mention_count w postId userId =
     length (filter (\<lambda>m. mention_post_id m = postId \<and> mention_user_id m = userId) (mentions w))"

text \<open>The mention rows of \<open>w'\<close> behind those of \<open>w\<close>.\<close>

definition new_mentions :: "world \<Rightarrow> world \<Rightarrow> mention list" where
  "new_mentions w w' = drop (length (mentions w)) (mentions w')"

text \<open>
  What each enrichment call leaves alone: \<open>linkHashtags\<close> writes to \<open>hashtags\<close> and
  \<open>post_hashtags\<close>, \<open>insertMentions\<close> to \<open>mentions\<close>, \<open>linkUrls\<close> to \<open>link_previews\<close>
  and \<open>post_links\<close>, and each may write to the console.
\<close>

definition hashtag_frame :: "world \<Rightarrow> world \<Rightarrow> bool" where
  "hashtag_frame w w' \<longleftrightarrow>
     profiles w' = profiles w \<and> posts w' = posts w \<and> follows w' = follows w \<and>
     likes w' = likes w \<and> mentions w' = mentions w \<and> link_previews w' = link_previews w \<and>
     post_links w' = post_links w \<and> clock w' = clock w \<and> fault w' = fault w"

definition mention_frame :: "world \<Rightarrow> world \<Rightarrow> bool" where
  "mention_frame w w' \<longleftrightarrow>
     profiles w' = profiles w \<and> posts w' = posts w \<and> follows w' = follows w \<and>
     likes w' = likes w \<and> hashtags w' = hashtags w \<and> post_hashtags w' = post_hashtags w \<and>
     link_previews w' = link_previews w \<and> post_links w' = post_links w \<and>
     clock w' = clock w \<and> fault w' = fault w"

definition link_frame :: "world \<Rightarrow> world \<Rightarrow> bool" where
  "link_frame w w' \<longleftrightarrow>
     profiles w' = profiles w \<and> posts w' = posts w \<and> follows w' = follows w \<and>
     likes w' = likes w \<and> hashtags w' = hashtags w \<and> post_hashtags w' = post_hashtags w \<and>
     mentions w' = mentions w \<and> clock w' = clock w \<and> fault w' = fault w"

text \<open>What the get-or-create of hashtags does to the world: only \<open>hashtags\<close> changes, no
  row of it is lost, and its tags stay unique if they were.\<close>

definition hashtags_grow :: "world \<Rightarrow> world \<Rightarrow> bool" where
  "hashtags_grow w w' \<longleftrightarrow>
     w' = w\<lparr>hashtags := hashtags w'\<rparr> \<and> set (hashtags w) \<subseteq> set (hashtags w') \<and>
     (distinct (map hashtag_tag (hashtags w)) \<longrightarrow> distinct (map hashtag_tag (hashtags w')))"

text \<open>The part of the world that \<open>insertMentions\<close> reads, and the part that \<open>linkUrls\<close>
  reads.\<close>

definition mention_view ::
  "world \<Rightarrow> profile list \<times> post list \<times> mention list \<times> (table_name \<Rightarrow> verb \<Rightarrow> store_error option)" where
  "mention_view w = (profiles w, posts w, mentions w, fault w)"

definition link_view ::
  "world \<Rightarrow> post list \<times> link_preview list \<times> (uuid \<times> uuid) list \<times>
     (table_name \<Rightarrow> verb \<Rightarrow> store_error option)" where
  "link_view w = (posts w, link_previews w, post_links w, fault w)"

section \<open>A small world for the examples\<close>

definition alice :: profile where
  "alice = \<lparr>profile_id = 1, profile_handle = ''alice'', profile_name = ''Alice'',
            profile_avatar_url = None\<rparr>"

definition bob :: profile where
  "bob = \<lparr>profile_id = 2, profile_handle = ''Bob'', profile_name = ''Bob'',
          profile_avatar_url = None\<rparr>"

definition carol :: profile where
  "carol = \<lparr>profile_id = 3, profile_handle = ''carol'', profile_name = ''Carol'',
            profile_avatar_url = None\<rparr>"

definition demo_post :: "uuid \<Rightarrow> uuid \<Rightarrow> bool \<Rightarrow> timestamptz \<Rightarrow> post" where
  "demo_post i u d t =
     \<lparr>post_id = i, post_user_id = u, post_content = ''hello'', post_image_url = None,
      post_is_deleted = Some d, post_created_at = t\<rparr>"

text \<open>Alice follows Bob; Carol follows no one. Post 3 (Alice's) and post 6 (Carol's) are
  soft-deleted.\<close>

definition demo_world :: world where
  "demo_world =
     \<lparr>profiles = [alice, bob, carol],
      posts = [demo_post 1 1 False 10, demo_post 2 2 False 20, demo_post 3 1 True 30,
               demo_post 4 1 False 40, demo_post 5 3 False 25, demo_post 6 3 True 26],
      follows = [\<lparr>follow_id = 1, follow_follower_id = 1, follow_following_id = 2\<rparr>],
      likes = [\<lparr>like_id = 1, like_user_id = 2, like_post_id = 1\<rparr>],
      hashtags = [], post_hashtags = [], mentions = [], link_previews = [], post_links = [],
      clock = 100, fault = (\<lambda>t v. None), console = []\<rparr>"

definition home_row :: "post \<Rightarrow> profile \<Rightarrow> feed_row" where
  "home_row p a = \<lparr>row_post = p, row_profiles = Some a, row_likes = None\<rparr>"

definition user_row :: "post \<Rightarrow> profile \<Rightarrow> nat \<Rightarrow> feed_row" where
  "user_row p a n = \<lparr>row_post = p, row_profiles = Some a, row_likes = Some n\<rparr>"

text \<open>A text with one tag in two spellings and a second tag.\<close>

definition tagged_text :: string where
  "tagged_text = ''#Rust and #rust, then #go''"

text \<open>The small world with a store that refuses every insert but the one into \<open>posts\<close>.\<close>

definition refusing_world :: world where
  "refusing_world =
     demo_world\<lparr>fault := (\<lambda>t v. if v = Insert \<and> t \<noteq> Posts then Some Refused else None)\<rparr>"

text \<open>Alice's next post, as the store inserts it, and the world behind that insert when
  the store refuses the enrichment inserts.\<close>

definition greeting :: string where
  "greeting = ''hi @alice #Rust http://x.io''"

definition new_post :: post where
  "new_post =
     \<lparr>post_id = 7, post_user_id = 1, post_content = greeting, post_image_url = None,
      post_is_deleted = Some False, post_created_at = 100\<rparr>"

definition posted_world :: world where
  "posted_world = refusing_world\<lparr>posts := posts refusing_world @ [new_post]\<rparr>"

section \<open>Generated keys\<close>

lemma fold_max_ge: "(a::nat) \<le> fold max ids a \<and> (\<forall>x \<in> set ids. x \<le> fold max ids a)"
proof (induction ids arbitrary: a)
  case Nil
  show ?case by simp
next
  case (Cons i ids)
  from Cons.IH [of "max i a"] show ?case by auto
qed

lemma fresh_uuid_fresh: "fresh_uuid ids \<notin> set ids"
proof
  assume "fresh_uuid ids \<in> set ids"
  with fold_max_ge [of 0 ids] have "fresh_uuid ids \<le> fold max ids 0" by simp
  then show False by (simp add: fresh_uuid_def)
qed

section \<open>Text Annotator: what the three extraction functions return\<close>

lemma set_array_from_set: "set (array_from_set xs) = set xs"
  by (induction xs rule: array_from_set.induct) auto

lemma distinct_array_from_set: "distinct (array_from_set xs)"
  by (induction xs rule: array_from_set.induct) (auto simp: set_array_from_set)

lemma remdups_snoc: "remdups (xs @ [x]) = remdups (filter (\<lambda>y. y \<noteq> x) xs) @ [x]"
  by (induction xs) auto

lemma array_from_set_first_occurrences: "array_from_set xs = rev (remdups (rev xs))"
proof (induction xs rule: array_from_set.induct)
  case 1
  show ?case by simp
next
  case (2 x xs)
  have "remdups (rev xs @ [x]) = remdups (filter (\<lambda>y. y \<noteq> x) (rev xs)) @ [x]"
    by (rule remdups_snoc)
  then have "rev (remdups (rev (x # xs))) = x # rev (remdups (rev (filter (\<lambda>y. y \<noteq> x) xs)))"
    by (simp add: rev_filter)
  with 2 show ?case by simp
qed

lemma toLowerChar_not_upper: "\<not> isUpperAscii (toLowerChar c)"
  by (auto simp: isUpperAscii_def toLowerChar_def code_unit_def Let_def)

lemma toLowerCase_no_upper: "c \<in> set (toLowerCase s) \<Longrightarrow> \<not> isUpperAscii c"
  by (auto simp: toLowerCase_def toLowerChar_not_upper)

lemma parseMentions_lower: "h \<in> set (parseMentions s) \<Longrightarrow> c \<in> set h \<Longrightarrow> \<not> isUpperAscii c"
  by (auto simp: parseMentions_def dest: toLowerCase_no_upper)

lemma sigil_not_word: "\<not> isWord (CHR ''#'')" "\<not> isWord (CHR ''@'')"
  by (simp_all add: isWord_def code_unit_def)

lemma sigil_occurrences_skip_words:
  "\<not> isWord x \<Longrightarrow> sigil_occurrences x (dropWhile isWord cs) = sigil_occurrences x cs"
proof (induction cs)
  case Nil
  show ?case by simp
next
  case (Cons d ds)
  show ?case
  proof (cases "isWord d")
    case True
    with Cons.prems have "d \<noteq> x" by auto
    with True Cons show ?thesis by (simp add: sigil_at_def)
  next
    case False
    then show ?thesis by simp
  qed
qed

lemma match_sigil_occurrences:
  "\<not> isWord x \<Longrightarrow> match_sigil x s = sigil_occurrences x s"
proof (induction x s rule: match_sigil.induct)
  case (1 x)
  show ?case by simp
next
  case (2 x c cs)
  show ?case
  proof (cases "c = x \<and> takeWhile isWord cs \<noteq> []")
    case True
    with 2 have "match_sigil x (dropWhile isWord cs) = sigil_occurrences x (dropWhile isWord cs)"
      by simp
    also have "\<dots> = sigil_occurrences x cs"
      using "2.prems" by (rule sigil_occurrences_skip_words)
    finally show ?thesis using True by (simp add: sigil_at_def)
  next
    case False
    with 2 have "match_sigil x cs = sigil_occurrences x cs" by simp
    with False show ?thesis by (auto simp: sigil_at_def)
  qed
qed

lemma sigil_occurrences_shape:
  "m \<in> set (sigil_occurrences x s) \<Longrightarrow>
     \<exists>run. m = x # run \<and> run \<noteq> [] \<and> list_all isWord run"
proof (induction s)
  case Nil
  then show ?case by simp
next
  case (Cons c cs)
  from Cons.prems have "m \<in> set (sigil_at x (c # cs)) \<or> m \<in> set (sigil_occurrences x cs)"
    by simp
  then show ?case
  proof
    assume "m \<in> set (sigil_at x (c # cs))"
    then have "m = x # takeWhile isWord cs \<and> takeWhile isWord cs \<noteq> []"
      by (auto simp: sigil_at_def split: if_splits)
    moreover have "list_all isWord (takeWhile isWord cs)"
      by (auto simp: list_all_iff dest: set_takeWhileD)
    ultimately show ?thesis by (intro exI [of _ "takeWhile isWord cs"]) simp
  next
    assume "m \<in> set (sigil_occurrences x cs)"
    then show ?thesis by (rule Cons.IH)
  qed
qed

lemma toLowerChar_word: "isWord c \<Longrightarrow> isWord (toLowerChar c)"
  by (auto simp: isWord_def toLowerChar_def code_unit_def Let_def)

lemma lowered_occurrence:
  assumes "h \<in> set (map (\<lambda>m. toLowerCase (slice1 m)) (sigil_occurrences x s))"
  shows "h \<noteq> [] \<and> list_all (\<lambda>c. isWord c \<and> \<not> isUpperAscii c) h"
proof -
  from assms obtain m where m: "m \<in> set (sigil_occurrences x s)" and h: "h = toLowerCase (slice1 m)"
    by auto
  from sigil_occurrences_shape [OF m] obtain run where
    r: "m = x # run" "run \<noteq> []" "list_all isWord run" by auto
  from r(1) h have "h = map toLowerChar run" by (simp add: toLowerCase_def slice1_def)
  with r(2,3) show ?thesis
    by (auto simp: list_all_iff toLowerChar_word toLowerChar_not_upper)
qed

lemma toLowerChar_idem: "toLowerChar (toLowerChar c) = toLowerChar c"
  by (auto simp: toLowerChar_def code_unit_def Let_def)

lemma toLowerCase_idem: "toLowerCase (toLowerCase s) = toLowerCase s"
  by (simp add: toLowerCase_def toLowerChar_idem)

lemma parseHashtags_lowered: "t \<in> set (parseHashtags content) \<Longrightarrow> toLowerCase t = t"
  by (auto simp: parseHashtags_def toLowerCase_idem)

lemma space_scheme_none: "isSpace sp \<Longrightarrow> url_scheme (sp # r) = None"
  by (auto simp: url_scheme_def isSpace_def code_unit_def)

lemma url_scheme_Some: "url_scheme s = Some (sch, r) \<Longrightarrow> s = sch @ r \<and> (sch = ''https://'' \<or> sch = ''http://'')"
  by (auto simp: url_scheme_def split: if_splits)

lemma take_word:
  assumes tok: "list_all (\<lambda>d. \<not> isSpace d) tok"
    and rest: "rest = [] \<or> isSpace (hd rest)"
    and A: "list_all (\<lambda>d. \<not> isSpace d) A" and k: "k = length A"
  shows "take k (tok @ rest) = A \<longleftrightarrow> take k tok = A"
proof (cases "k \<le> length tok")
  case True
  then show ?thesis by simp
next
  case False
  then have short: "length tok < k" by simp
  have "take k tok \<noteq> A" using short k by auto
  moreover have "take k (tok @ rest) \<noteq> A"
  proof
    assume e: "take k (tok @ rest) = A"
    then have "length (take k (tok @ rest)) = k" using k by simp
    with short have "rest \<noteq> []" by auto
    with rest have sp: "isSpace (hd rest)" by simp
    from short \<open>rest \<noteq> []\<close> have "hd rest \<in> set (take k (tok @ rest))"
      by (cases rest) (auto simp: take_Cons' )
    with e A sp show False by (auto simp: list_all_iff)
  qed
  ultimately show ?thesis by simp
qed

lemma url_scheme_word:
  assumes tok: "list_all (\<lambda>d. \<not> isSpace d) tok" and rest: "rest = [] \<or> isSpace (hd rest)"
  shows "url_scheme (tok @ rest) =
     (case url_scheme tok of None \<Rightarrow> None | Some (sch, r) \<Rightarrow> Some (sch, r @ rest))"
proof -
  have a: "list_all (\<lambda>d. \<not> isSpace d) ''https://''" "list_all (\<lambda>d. \<not> isSpace d) ''http://''"
    by (simp_all add: isSpace_def code_unit_def)
  have e8: "take 8 (tok @ rest) = ''https://'' \<longleftrightarrow> take 8 tok = ''https://''"
    using tok rest a(1) by (rule take_word) simp
  have e7: "take 7 (tok @ rest) = ''http://'' \<longleftrightarrow> take 7 tok = ''http://''"
    using tok rest a(2) by (rule take_word) simp
  have d8: "take 8 tok = ''https://'' \<Longrightarrow> drop 8 (tok @ rest) = drop 8 tok @ rest"
  proof -
    assume "take 8 tok = ''https://''"
    then have "length (take 8 tok) = 8" by simp
    then have "8 \<le> length tok" by simp
    then show ?thesis by simp
  qed
  have d7: "take 7 tok = ''http://'' \<Longrightarrow> drop 7 (tok @ rest) = drop 7 tok @ rest"
  proof -
    assume "take 7 tok = ''http://''"
    then have "length (take 7 tok) = 7" by simp
    then have "7 \<le> length tok" by simp
    then show ?thesis by simp
  qed
  show ?thesis
    unfolding url_scheme_def using e8 e7 d8 d7 by (simp only: split: if_splits) auto
qed

lemma takeWhile_word:
  assumes "list_all P r" and "rest = [] \<or> \<not> P (hd rest)"
  shows "takeWhile P (r @ rest) = r \<and> dropWhile P (r @ rest) = rest"
proof (cases rest)
  case Nil
  with assms(1) show ?thesis by (simp add: list_all_iff)
next
  case (Cons a as)
  with assms(2) have "\<not> P a" by simp
  with assms(1) Cons show ?thesis
    by (simp add: list_all_iff takeWhile_append2 dropWhile_append2)
qed

lemma match_url_space: "isSpace sp \<Longrightarrow> match_url (sp # r) = match_url r"
  by (simp add: space_scheme_none)

lemma match_url_word:
  assumes "list_all (\<lambda>d. \<not> isSpace d) tok" and "rest = [] \<or> isSpace (hd rest)"
  shows "match_url (tok @ rest) = url_in_word tok @ match_url rest"
  using assms(1)
proof (induction tok)
  case Nil
  show ?case by simp
next
  case (Cons c t)
  from Cons.prems have t: "list_all (\<lambda>d. \<not> isSpace d) t" by simp
  note ih = Cons.IH [OF t]
  have sch: "url_scheme ((c # t) @ rest) =
     (case url_scheme (c # t) of None \<Rightarrow> None | Some (sch, r) \<Rightarrow> Some (sch, r @ rest))"
    using Cons.prems assms(2) by (rule url_scheme_word)
  show ?case
  proof (cases "url_scheme (c # t)")
    case None
    with sch have "url_scheme (c # t @ rest) = None" by simp
    with None ih show ?thesis by simp
  next
    case (Some pr)
    obtain scheme r where pr: "pr = (scheme, r)" by (cases pr)
    from Some pr have s1: "url_scheme (c # t) = Some (scheme, r)" by simp
    with sch have s2: "url_scheme (c # t @ rest) = Some (scheme, r @ rest)" by simp
    from url_scheme_Some [OF s1] have whole: "c # t = scheme @ r" by simp
    with Cons.prems have "list_all (\<lambda>d. \<not> isSpace d) (scheme @ r)" by simp
    then have "list_all (\<lambda>d. \<not> isSpace d) r" by simp
    from takeWhile_word [OF this, of rest] assms(2)
    have tw: "takeWhile (\<lambda>d. \<not> isSpace d) (r @ rest) = r"
      and dw: "dropWhile (\<lambda>d. \<not> isSpace d) (r @ rest) = rest" by simp_all
    show ?thesis
    proof (cases "r = []")
      case True
      with s1 s2 tw ih show ?thesis by simp
    next
      case False
      with s2 tw dw have "match_url (c # t @ rest) = (scheme @ r) # match_url rest" by simp
      moreover from s1 False have "url_in_word (c # t) = [c # t]" by simp
      ultimately show ?thesis by (simp add: whole [symmetric])
    qed
  qed
qed

lemma match_url_spec: "match_url s = spec_urls s"
proof (induction s rule: words_of.induct)
  case (1 s)
  let ?tok = "takeWhile (\<lambda>d. \<not> isSpace d) s"
  let ?d = "dropWhile (\<lambda>d. \<not> isSpace d) s"
  have tok: "list_all (\<lambda>d. \<not> isSpace d) ?tok"
    by (auto simp: list_all_iff dest: set_takeWhileD)
  have split: "s = ?tok @ ?d" by simp
  show ?case
  proof (cases ?d)
    case Nil
    then have w: "words_of s = [?tok]" by (subst words_of.simps) (simp only: list.case)
    from Nil split have ts: "?tok = s" by (metis append_Nil2)
    have "match_url (?tok @ []) = url_in_word ?tok @ match_url []"
      using tok by (rule match_url_word) simp
    then have m: "match_url ?tok = url_in_word ?tok" by simp
    have "match_url s = match_url ?tok" by (rule arg_cong [OF ts [symmetric]])
    from this m have "match_url s = url_in_word ?tok" by (rule trans)
    with w show ?thesis by (simp add: spec_urls_def)
  next
    case (Cons sp rest)
    then have w: "words_of s = ?tok # words_of rest" by (subst words_of.simps) (simp only: list.case)
    from Cons have "isSpace (hd ?d)"
      by (metis hd_dropWhile list.distinct(1))
    with Cons have sp: "isSpace sp" by simp
    then have "sp # rest = [] \<or> isSpace (hd (sp # rest))" by simp
    from match_url_word [OF tok this]
    have "match_url (?tok @ sp # rest) = url_in_word ?tok @ match_url (sp # rest)" .
    moreover from Cons split have "?tok @ sp # rest = s" by simp
    ultimately have "match_url s = url_in_word ?tok @ match_url (sp # rest)" by simp
    also have "match_url (sp # rest) = match_url rest" using sp by (rule match_url_space)
    also have "match_url rest = spec_urls rest" using Cons by (rule "1.IH")
    finally show ?thesis using w by (simp add: spec_urls_def)
  qed
qed

text \<open>
  The list that \<open>parseHashtags\<close> returns can hold a tag twice: two spellings of one tag
  are both kept, lowercased.
\<close>

theorem annotator_duplicates_counterexample:
  "parseHashtags ''Hot take: #typescript is great. #TypeScript rules'' = [''typescript'', ''typescript''] \<and>
   \<not> distinct (parseHashtags ''Hot take: #typescript is great. #TypeScript rules'')"
  by code_simp

text \<open>
  Claim C3, amended. For every input \<open>s\<close>, \<open>parseHashtags s\<close>, \<open>parseMentions s\<close> and
  \<open>parseUrls s\<close> are functions of \<open>s\<close> alone whose results stand in the order of their
  occurrence in \<open>s\<close>: the hashtags (mentions) are, position by position, the lowercased
  runs of word characters behind every \<open>#\<close> (\<open>@\<close>) that has one, each a non-empty
  string of lowercase word characters; the URLs are, word by word, the rest of each
  whitespace-free word from its first \<open>http://\<close> or \<open>https://\<close> with a character behind
  it. The lists may hold duplicates. The duplicate-free lists are the ones the callers
  build with \<open>Array.from(new Set(...))\<close>: the same elements, each once, in the order of
  their first occurrence.
\<close>

theorem annotator_results_in_order_then_deduplicated:
  "parseHashtags s = map (\<lambda>m. toLowerCase (slice1 m)) (sigil_occurrences (CHR ''#'') s) \<and>
   parseMentions s = map (\<lambda>m. toLowerCase (slice1 m)) (sigil_occurrences (CHR ''@'') s) \<and>
   parseUrls s = spec_urls s \<and>
   list_all (\<lambda>h. h \<noteq> [] \<and> list_all (\<lambda>c. isWord c \<and> \<not> isUpperAscii c) h)
     (parseHashtags s @ parseMentions s) \<and>
   distinct (array_from_set (parseHashtags s)) \<and>
   set (array_from_set (parseHashtags s)) = set (parseHashtags s) \<and>
   array_from_set (parseHashtags s) = rev (remdups (rev (parseHashtags s))) \<and>
   distinct (array_from_set (parseMentions s)) \<and>
   set (array_from_set (parseMentions s)) = set (parseMentions s) \<and>
   array_from_set (parseMentions s) = rev (remdups (rev (parseMentions s))) \<and>
   distinct (array_from_set (parseUrls s)) \<and>
   set (array_from_set (parseUrls s)) = set (parseUrls s) \<and>
   array_from_set (parseUrls s) = rev (remdups (rev (parseUrls s)))"
proof -
  have h: "parseHashtags s = map (\<lambda>m. toLowerCase (slice1 m)) (sigil_occurrences (CHR ''#'') s)"
    by (simp add: parseHashtags_def match_sigil_occurrences sigil_not_word)
  have m: "parseMentions s = map (\<lambda>m. toLowerCase (slice1 m)) (sigil_occurrences (CHR ''@'') s)"
    by (simp add: parseMentions_def match_sigil_occurrences sigil_not_word)
  have u: "parseUrls s = spec_urls s"
    by (simp add: parseUrls_def match_url_spec)
  have "\<forall>x \<in> set (parseHashtags s @ parseMentions s).
          x \<noteq> [] \<and> list_all (\<lambda>c. isWord c \<and> \<not> isUpperAscii c) x"
  proof
    fix x assume "x \<in> set (parseHashtags s @ parseMentions s)"
    then have "x \<in> set (map (\<lambda>m. toLowerCase (slice1 m)) (sigil_occurrences (CHR ''#'') s)) \<or>
               x \<in> set (map (\<lambda>m. toLowerCase (slice1 m)) (sigil_occurrences (CHR ''@'') s))"
      by (simp only: h m set_append Un_iff)
    then show "x \<noteq> [] \<and> list_all (\<lambda>c. isWord c \<and> \<not> isUpperAscii c) x"
      by (rule disjE) (rule lowered_occurrence, assumption)+
  qed
  then have l: "list_all (\<lambda>h. h \<noteq> [] \<and> list_all (\<lambda>c. isWord c \<and> \<not> isUpperAscii c) h)
     (parseHashtags s @ parseMentions s)"
    by (simp only: list_all_iff)
  from h m u l show ?thesis
    by (intro conjI distinct_array_from_set set_array_from_set array_from_set_first_occurrences)
qed

theorem annotator_results_in_order_then_deduplicated_witness:
  "parseHashtags ''Hot take: #typescript is great. #TypeScript rules'' = [''typescript'', ''typescript''] \<and>
   sigil_occurrences (CHR ''#'') ''Hot take: #typescript is great. #TypeScript rules'' =
     [''#typescript'', ''#TypeScript''] \<and>
   parseUrls ''see https://example.com/a and http://x.io'' = [''https://example.com/a'', ''http://x.io''] \<and>
   spec_urls ''see https://example.com/a and http://x.io'' = [''https://example.com/a'', ''http://x.io''] \<and>
   array_from_set (parseHashtags ''Hot take: #typescript is great. #TypeScript rules'') = [''typescript''] \<and>
   distinct (array_from_set (parseHashtags ''Hot take: #typescript is great. #TypeScript rules''))"
proof -
  have a: "parseHashtags ''Hot take: #typescript is great. #TypeScript rules'' = [''typescript'', ''typescript'']"
    by code_simp
  have o: "sigil_occurrences (CHR ''#'') ''Hot take: #typescript is great. #TypeScript rules'' =
     [''#typescript'', ''#TypeScript'']"
    by code_simp
  have p: "parseUrls ''see https://example.com/a and http://x.io'' = [''https://example.com/a'', ''http://x.io'']"
    by code_simp
  have b: "array_from_set (parseHashtags ''Hot take: #typescript is great. #TypeScript rules'') = [''typescript'']"
    by code_simp
  note t = annotator_results_in_order_then_deduplicated
  from t [of "''see https://example.com/a and http://x.io''"]
  have "parseUrls ''see https://example.com/a and http://x.io'' =
        spec_urls ''see https://example.com/a and http://x.io''"
    by (elim conjE)
  with p have q: "spec_urls ''see https://example.com/a and http://x.io'' =
      [''https://example.com/a'', ''http://x.io'']"
    by simp
  from t [of "''Hot take: #typescript is great. #TypeScript rules''"]
  have d: "distinct (array_from_set (parseHashtags ''Hot take: #typescript is great. #TypeScript rules''))"
    by (elim conjE)
  from a o p q b d show ?thesis by (intro conjI)
qed

section \<open>Feed Assembler\<close>

subsection \<open>The post query\<close>

lemma set_order_created_at_desc: "set (order_created_at_desc ps) = set ps"
  by (simp add: order_created_at_desc_def)

lemma length_order_created_at_desc: "length (order_created_at_desc ps) = length ps"
  by (simp add: order_created_at_desc_def)

lemma order_created_at_desc_sorted:
  "sorted_wrt (\<lambda>a b. post_created_at b \<le> post_created_at a) (order_created_at_desc ps)"
proof -
  have "sorted (map (\<lambda>p. - post_created_at p) (sort_key (\<lambda>p. - post_created_at p) ps))"
    by (rule sorted_sort_key)
  then show ?thesis
    by (simp add: order_created_at_desc_def sorted_wrt_map)
qed

lemma select_posts_Inr:
  assumes "select_posts w author cursor n = Inr data"
  shows "data = take n (order_created_at_desc
            (filter (\<lambda>p. author p \<and> post_is_deleted p = Some False \<and>
                          (case cursor of None \<Rightarrow> True | Some c \<Rightarrow> post_created_at p < c))
               (posts w)))"
proof (cases "fault w Posts Select")
  case None
  with assms show ?thesis by (simp add: select_posts_def)
next
  case (Some e)
  with assms show ?thesis by (simp add: select_posts_def)
qed

lemma select_posts_members:
  assumes "select_posts w author cursor n = Inr data" and "p \<in> set data"
  shows "p \<in> set (posts w) \<and> author p \<and> post_is_deleted p = Some False \<and>
         (\<forall>c. cursor = Some c \<longrightarrow> post_created_at p < c)"
proof -
  from assms(2) have "p \<in> set (order_created_at_desc
            (filter (\<lambda>p. author p \<and> post_is_deleted p = Some False \<and>
                          (case cursor of None \<Rightarrow> True | Some c \<Rightarrow> post_created_at p < c))
               (posts w)))"
    unfolding select_posts_Inr [OF assms(1)] by (rule in_set_takeD)
  then show ?thesis
    by (auto simp: set_order_created_at_desc)
qed

lemma select_posts_sorted:
  assumes "select_posts w author cursor n = Inr data"
  shows "sorted_wrt (\<lambda>a b. post_created_at b \<le> post_created_at a) data"
  unfolding select_posts_Inr [OF assms]
  by (rule sorted_wrt_take) (rule order_created_at_desc_sorted)

lemma select_posts_length:
  assumes "select_posts w author cursor n = Inr data"
  shows "length data \<le> n"
  unfolding select_posts_Inr [OF assms] by simp

lemma getHomeFeed_Inr:
  assumes "getHomeFeed w userId cursor limit = Inr page"
  shows "\<exists>data. select_posts w (\<lambda>p. post_user_id p \<in> set (followingIds w userId)) cursor (default_limit limit) = Inr data
           \<and> map row_post page = data"
  using assms
  by (auto simp: getHomeFeed_def Let_def followingIds_def comp_def split: sum.splits if_splits)

lemma getUserPosts_Inr:
  assumes "getUserPosts w userId cursor limit = Inr page"
  shows "\<exists>data. select_posts w (\<lambda>p. post_user_id p = userId) cursor (default_limit limit) = Inr data
           \<and> map row_post page = data"
  using assms
  by (auto simp: getUserPosts_def comp_def split: sum.splits)

lemma page_properties:
  assumes "select_posts w author (Some c) n = Inr (map row_post page)"
  shows "(\<forall>r \<in> set page. post_created_at (row_post r) < c) \<and>
         sorted_wrt (\<lambda>a b. post_created_at (row_post b) \<le> post_created_at (row_post a)) page \<and>
         length page \<le> n"
proof (intro conjI ballI)
  fix r assume "r \<in> set page"
  then have "row_post r \<in> set (map row_post page)" by simp
  from select_posts_members [OF assms this] show "post_created_at (row_post r) < c" by simp
next
  from select_posts_sorted [OF assms]
  show "sorted_wrt (\<lambda>a b. post_created_at (row_post b) \<le> post_created_at (row_post a)) page"
    by (simp add: sorted_wrt_map)
next
  from select_posts_length [OF assms] show "length page \<le> n" by simp
qed

lemma followingIds_viewer: "userId \<in> set (followingIds w userId)"
  by (simp add: followingIds_def)

lemma take_or_newer:
  assumes s: "sorted_wrt (\<lambda>a b. post_created_at b \<le> post_created_at a) xs" and p: "p \<in> set xs"
  shows "p \<in> set (take n xs) \<or>
         (length (take n xs) = n \<and> (\<forall>q \<in> set (take n xs). post_created_at p \<le> post_created_at q))"
proof (cases "p \<in> set (take n xs)")
  case True
  then show ?thesis by simp
next
  case False
  have "set xs = set (take n xs) \<union> set (drop n xs)"
    by (metis append_take_drop_id set_append)
  with p False have d: "p \<in> set (drop n xs)" by simp
  then have "drop n xs \<noteq> []" by auto
  then have len: "length (take n xs) = n" by simp
  from s have "sorted_wrt (\<lambda>a b. post_created_at b \<le> post_created_at a) (take n xs @ drop n xs)"
    by simp
  then have "\<forall>q \<in> set (take n xs). \<forall>r \<in> set (drop n xs). post_created_at r \<le> post_created_at q"
    by (simp only: sorted_wrt_append) simp
  with d have "\<forall>q \<in> set (take n xs). post_created_at p \<le> post_created_at q" by simp
  with len show ?thesis by simp
qed

subsection \<open>Evaluation on the small world\<close>

lemma demo_home_feed:
  "getHomeFeed demo_world 1 (Some 35) (Some 2) =
     Inr [home_row (demo_post 2 2 False 20) bob, home_row (demo_post 1 1 False 10) alice]"
  by code_simp

lemma demo_user_posts:
  "getUserPosts demo_world 1 (Some 35) (Some 2) = Inr [user_row (demo_post 1 1 False 10) alice 1]"
  by code_simp

lemma demo_home_feed_all:
  "getHomeFeed demo_world 1 None None =
     Inr [home_row (demo_post 4 1 False 40) alice, home_row (demo_post 2 2 False 20) bob,
          home_row (demo_post 1 1 False 10) alice]"
  by code_simp

lemma demo_user_posts_all:
  "getUserPosts demo_world 1 None None =
     Inr [user_row (demo_post 4 1 False 40) alice 0, user_row (demo_post 1 1 False 10) alice 1]"
  by code_simp

lemma demo_carol_feed:
  "getHomeFeed demo_world 3 None None = Inr [home_row (demo_post 5 3 False 25) carol]"
  by code_simp

lemma demo_alice_first:
  "getHomeFeed demo_world 1 None (Some 1) = Inr [home_row (demo_post 4 1 False 40) alice]"
  by code_simp

subsection \<open>Pagination\<close>

text \<open>
  Claim C4. For every viewer or subject user, cursor timestamp \<open>c\<close> and limit \<open>n\<close>, a page
  that \<open>getHomeFeed\<close> or \<open>getUserPosts\<close> returns for the cursor \<open>c\<close> holds only posts
  created strictly before \<open>c\<close>, is ordered by creation time descending, and has at most
  \<open>n\<close> posts.
\<close>

theorem feed_cursor_page:
  "(getHomeFeed w userId (Some c) (Some n) = Inr page \<or>
    getUserPosts w userId (Some c) (Some n) = Inr page) \<Longrightarrow>
   (\<forall>r \<in> set page. post_created_at (row_post r) < c) \<and>
   sorted_wrt (\<lambda>a b. post_created_at (row_post b) \<le> post_created_at (row_post a)) page \<and>
   length page \<le> n"
proof (erule disjE)
  assume "getHomeFeed w userId (Some c) (Some n) = Inr page"
  from getHomeFeed_Inr [OF this]
  have "select_posts w (\<lambda>p. post_user_id p \<in> set (followingIds w userId)) (Some c) n
          = Inr (map row_post page)"
    by (simp add: default_limit_def)
  then show ?thesis by (rule page_properties)
next
  assume "getUserPosts w userId (Some c) (Some n) = Inr page"
  from getUserPosts_Inr [OF this]
  have "select_posts w (\<lambda>p. post_user_id p = userId) (Some c) n = Inr (map row_post page)"
    by (simp add: default_limit_def)
  then show ?thesis by (rule page_properties)
qed

theorem feed_cursor_page_witness:
  "getHomeFeed demo_world 1 (Some 35) (Some 2) =
     Inr [home_row (demo_post 2 2 False 20) bob, home_row (demo_post 1 1 False 10) alice] \<and>
   post_created_at (row_post (home_row (demo_post 2 2 False 20) bob)) < 35 \<and>
   post_created_at (row_post (home_row (demo_post 1 1 False 10) alice)) < 35 \<and>
   sorted_wrt (\<lambda>a b. post_created_at (row_post b) \<le> post_created_at (row_post a))
     [home_row (demo_post 2 2 False 20) bob, home_row (demo_post 1 1 False 10) alice] \<and>
   length [home_row (demo_post 2 2 False 20) bob, home_row (demo_post 1 1 False 10) alice] \<le> 2 \<and>
   getUserPosts demo_world 1 (Some 35) (Some 2) =
     Inr [user_row (demo_post 1 1 False 10) alice 1] \<and>
   post_created_at (row_post (user_row (demo_post 1 1 False 10) alice 1)) < 35"
  using feed_cursor_page [OF disjI1, OF demo_home_feed] feed_cursor_page [OF disjI2, OF demo_user_posts]
    demo_home_feed demo_user_posts
  by simp

subsection \<open>Soft-deleted posts\<close>

text \<open>
  Claim C5. A post whose \<open>is_deleted\<close> flag is set is in no page returned by
  \<open>getHomeFeed\<close> or \<open>getUserPosts\<close>, whoever its author is.
\<close>

theorem feed_excludes_deleted:
  assumes "post_is_deleted p = Some True"
  shows "(getHomeFeed w userId cursor limit = Inr page \<longrightarrow> p \<notin> row_post ` set page) \<and>
         (getUserPosts w userId cursor limit = Inr page \<longrightarrow> p \<notin> row_post ` set page)"
proof (intro conjI impI notI)
  assume "getHomeFeed w userId cursor limit = Inr page" and "p \<in> row_post ` set page"
  with getHomeFeed_Inr [of w userId cursor limit page] select_posts_members [of w _ cursor _ "map row_post page" p]
  have "post_is_deleted p = Some False" by auto
  with assms show False by simp
next
  assume "getUserPosts w userId cursor limit = Inr page" and "p \<in> row_post ` set page"
  with getUserPosts_Inr [of w userId cursor limit page] select_posts_members [of w _ cursor _ "map row_post page" p]
  have "post_is_deleted p = Some False" by auto
  with assms show False by simp
qed

theorem feed_excludes_deleted_witness:
  "post_is_deleted (demo_post 3 1 True 30) = Some True \<and>
   getHomeFeed demo_world 1 None None =
     Inr [home_row (demo_post 4 1 False 40) alice, home_row (demo_post 2 2 False 20) bob,
          home_row (demo_post 1 1 False 10) alice] \<and>
   demo_post 3 1 True 30 \<notin> row_post `
     set [home_row (demo_post 4 1 False 40) alice, home_row (demo_post 2 2 False 20) bob,
          home_row (demo_post 1 1 False 10) alice] \<and>
   getUserPosts demo_world 1 None None =
     Inr [user_row (demo_post 4 1 False 40) alice 0, user_row (demo_post 1 1 False 10) alice 1] \<and>
   demo_post 3 1 True 30 \<notin> row_post `
     set [user_row (demo_post 4 1 False 40) alice 0, user_row (demo_post 1 1 False 10) alice 1]"
proof -
  have d: "post_is_deleted (demo_post 3 1 True 30) = Some True"
    by (simp add: demo_post_def)
  from feed_excludes_deleted [OF d, of demo_world 1 None None] demo_home_feed_all
  have h: "demo_post 3 1 True 30 \<notin> row_post `
     set [home_row (demo_post 4 1 False 40) alice, home_row (demo_post 2 2 False 20) bob,
          home_row (demo_post 1 1 False 10) alice]"
    by blast
  from feed_excludes_deleted [OF d, of demo_world 1 None None] demo_user_posts_all
  have u: "demo_post 3 1 True 30 \<notin> row_post `
     set [user_row (demo_post 4 1 False 40) alice 0, user_row (demo_post 1 1 False 10) alice 1]"
    by blast
  from d h u demo_home_feed_all demo_user_posts_all show ?thesis by blast
qed

subsection \<open>The author set of the home feed\<close>

text \<open>
  Claim C6. The author list that \<open>getHomeFeed\<close> computes contains the viewer, also when
  the viewer follows no one (and when the follows query fails), so it is never empty, and
  \<open>getHomeFeed\<close> always passes it to the post query; and every non-deleted post of the viewer that lies before the cursor is a candidate of every
  page \<open>getHomeFeed\<close> returns: it is in the page, or the page is full and holds only
  posts that are at least as new.
\<close>

theorem home_feed_authors_include_viewer:
  "userId \<in> set (followingIds w userId) \<and> length (followingIds w userId) \<noteq> 0 \<and>
   getHomeFeed w userId cursor limit =
     (case select_posts w (\<lambda>p. post_user_id p \<in> set (followingIds w userId)) cursor
             (default_limit limit) of
        Inl error \<Rightarrow> Inl error
      | Inr data \<Rightarrow>
          Inr (map (\<lambda>p. \<lparr>row_post = p, row_profiles = embed_profiles w p,
                           row_likes = None\<rparr>) data)) \<and>
   (p \<in> set (posts w) \<and> post_user_id p = userId \<and> post_is_deleted p = Some False \<and>
    (case cursor of None \<Rightarrow> True | Some c \<Rightarrow> post_created_at p < c) \<and>
    getHomeFeed w userId cursor limit = Inr page
    \<longrightarrow> p \<in> row_post ` set page \<or>
        (length page = default_limit limit \<and>
         (\<forall>r \<in> set page. post_created_at p \<le> post_created_at (row_post r))))"
proof (intro conjI impI)
  show "userId \<in> set (followingIds w userId)" by (rule followingIds_viewer)
  show "length (followingIds w userId) \<noteq> 0" by (simp add: followingIds_def)
  show "getHomeFeed w userId cursor limit =
     (case select_posts w (\<lambda>p. post_user_id p \<in> set (followingIds w userId)) cursor
             (default_limit limit) of
        Inl error \<Rightarrow> Inl error
      | Inr data \<Rightarrow>
          Inr (map (\<lambda>p. \<lparr>row_post = p, row_profiles = embed_profiles w p,
                           row_likes = None\<rparr>) data))"
    by (simp add: getHomeFeed_def Let_def followingIds_def)
next
  let ?cands = "filter (\<lambda>p. post_user_id p \<in> set (followingIds w userId) \<and>
                    post_is_deleted p = Some False \<and>
                    (case cursor of None \<Rightarrow> True | Some c \<Rightarrow> post_created_at p < c)) (posts w)"
  assume a: "p \<in> set (posts w) \<and> post_user_id p = userId \<and> post_is_deleted p = Some False \<and>
    (case cursor of None \<Rightarrow> True | Some c \<Rightarrow> post_created_at p < c) \<and>
    getHomeFeed w userId cursor limit = Inr page"
  then have "getHomeFeed w userId cursor limit = Inr page" by simp
  from getHomeFeed_Inr [OF this]
  have sel: "select_posts w (\<lambda>p. post_user_id p \<in> set (followingIds w userId)) cursor
               (default_limit limit) = Inr (map row_post page)"
    by simp
  have page: "map row_post page = take (default_limit limit) (order_created_at_desc ?cands)"
    by (rule select_posts_Inr [OF sel])
  from a have "p \<in> set ?cands" by (simp add: followingIds_viewer)
  then have "p \<in> set (order_created_at_desc ?cands)"
    by (simp only: set_order_created_at_desc)
  with order_created_at_desc_sorted
  have "p \<in> set (take (default_limit limit) (order_created_at_desc ?cands)) \<or>
        (length (take (default_limit limit) (order_created_at_desc ?cands)) = default_limit limit \<and>
         (\<forall>q \<in> set (take (default_limit limit) (order_created_at_desc ?cands)).
            post_created_at p \<le> post_created_at q))"
    by (rule take_or_newer)
  then have "p \<in> set (map row_post page) \<or>
        (length (map row_post page) = default_limit limit \<and>
         (\<forall>q \<in> set (map row_post page). post_created_at p \<le> post_created_at q))"
    by (simp only: page)
  then show "p \<in> row_post ` set page \<or>
        (length page = default_limit limit \<and>
         (\<forall>r \<in> set page. post_created_at p \<le> post_created_at (row_post r)))"
    by simp
qed

theorem home_feed_authors_include_viewer_witness:
  "followingIds demo_world 3 = [3] \<and>
   demo_post 5 3 False 25 \<in> set (posts demo_world) \<and>
   getHomeFeed demo_world 3 None None = Inr [home_row (demo_post 5 3 False 25) carol] \<and>
   demo_post 5 3 False 25 \<in> row_post ` set [home_row (demo_post 5 3 False 25) carol] \<and>
   demo_post 1 1 False 10 \<in> set (posts demo_world) \<and>
   getHomeFeed demo_world 1 None (Some 1) = Inr [home_row (demo_post 4 1 False 40) alice] \<and>
   demo_post 1 1 False 10 \<notin> row_post ` set [home_row (demo_post 4 1 False 40) alice] \<and>
   length [home_row (demo_post 4 1 False 40) alice] = default_limit (Some 1) \<and>
   post_created_at (demo_post 1 1 False 10) \<le>
     post_created_at (row_post (home_row (demo_post 4 1 False 40) alice))"
proof -
  have f: "followingIds demo_world 3 = [3]" by code_simp
  have m: "demo_post 5 3 False 25 \<in> set (posts demo_world)" by (simp add: demo_world_def)
  have c: "post_user_id (demo_post 5 3 False 25) = 3 \<and>
           post_is_deleted (demo_post 5 3 False 25) = Some False"
    by (simp add: demo_post_def)
  have n: "length [home_row (demo_post 5 3 False 25) carol] \<noteq> default_limit None"
    by (simp add: default_limit_def)
  from home_feed_authors_include_viewer [where userId = 3 and w = demo_world
      and p = "demo_post 5 3 False 25" and cursor = None and limit = None
      and page = "[home_row (demo_post 5 3 False 25) carol]"] m c n demo_carol_feed
  have carol_in: "demo_post 5 3 False 25 \<in> row_post ` set [home_row (demo_post 5 3 False 25) carol]"
    by simp
  have m1: "demo_post 1 1 False 10 \<in> set (posts demo_world)" by (simp add: demo_world_def)
  have c1: "post_user_id (demo_post 1 1 False 10) = 1 \<and>
            post_is_deleted (demo_post 1 1 False 10) = Some False"
    by (simp add: demo_post_def)
  have out: "demo_post 1 1 False 10 \<notin> row_post ` set [home_row (demo_post 4 1 False 40) alice]"
    by (simp add: home_row_def demo_post_def)
  from home_feed_authors_include_viewer [where userId = 1 and w = demo_world
      and p = "demo_post 1 1 False 10" and cursor = None and limit = "Some 1"
      and page = "[home_row (demo_post 4 1 False 40) alice]"] m1 c1 out demo_alice_first
  have full: "length [home_row (demo_post 4 1 False 40) alice] = default_limit (Some 1) \<and>
     post_created_at (demo_post 1 1 False 10) \<le>
       post_created_at (row_post (home_row (demo_post 4 1 False 40) alice))"
    by simp
  from f m demo_carol_feed carol_in m1 demo_alice_first out full show ?thesis
    by (intro conjI) simp_all
qed

section \<open>Social Graph Accessor\<close>

text \<open>
  Claim C8. When no follow relation from \<open>a\<close> to \<open>b\<close> exists, \<open>unfollowUser a b\<close> leaves
  the world as it was, and it throws nothing of its own: it resolves unless the store
  itself refuses the delete request, and then it throws exactly the store's error.
\<close>

theorem unfollow_absent_noop:
  assumes "\<not> (\<exists>f \<in> set (follows w). follow_follower_id f = a \<and> follow_following_id f = b)"
  shows "snd (unfollowUser a b w) = w \<and>
         (fault w Follows Delete = None \<longrightarrow> fst (unfollowUser a b w) = Inr ()) \<and>
         (\<forall>e. fst (unfollowUser a b w) = Inl e \<longleftrightarrow> fault w Follows Delete = Some e)"
proof -
  from assms have "filter (\<lambda>f. \<not> (follow_follower_id f = a \<and> follow_following_id f = b)) (follows w) = follows w"
    by (auto simp: filter_id_conv)
  then show ?thesis
    by (auto simp: unfollowUser_def delete_follows_def split: option.splits)
qed

theorem unfollow_absent_noop_witness:
  "\<not> (\<exists>f \<in> set (follows demo_world). follow_follower_id f = 2 \<and> follow_following_id f = 1) \<and>
   fault demo_world Follows Delete = None \<and>
   unfollowUser 2 1 demo_world = (Inr (), demo_world)"
proof -
  have a: "\<not> (\<exists>f \<in> set (follows demo_world). follow_follower_id f = 2 \<and> follow_following_id f = 1)"
    by (simp add: demo_world_def)
  have b: "fault demo_world Follows Delete = None" by (simp add: demo_world_def)
  from unfollow_absent_noop [OF a] b have "unfollowUser 2 1 demo_world = (Inr (), demo_world)"
    by (simp add: prod_eq_iff)
  with a b show ?thesis by simp
qed

section \<open>Enrichment Writer\<close>

subsection \<open>Get-or-create of a hashtag under a race\<close>

lemma insert_hashtag_Inl: "fst (insert_hashtag w t) = Inl e \<Longrightarrow> snd (insert_hashtag w t) = w"
  by (auto simp: insert_hashtag_def hashtags_insert_def Let_def split: option.splits if_splits)

lemma race_lookup: "select_hashtag demo_world (toLowerCase ''Rust'') = Inr None"
  by code_simp

lemma race_insert:
  "fst (insert_hashtag (other_writers [''rust''] demo_world) (toLowerCase ''Rust'')) = Inl DuplicateKey"
  by code_simp

text \<open>
  A tag that is absent at the lookup and that another client inserts before this call's
  insert: the call throws the duplicate-key error; it does not read again.
\<close>

theorem getOrCreateHashtag_race_counterexample:
  "select_hashtag demo_world (toLowerCase ''Rust'') = Inr None \<and>
   fst (insert_hashtag (other_writers [''rust''] demo_world) (toLowerCase ''Rust'')) = Inl DuplicateKey \<and>
   map hashtag_tag (hashtags (other_writers [''rust''] demo_world)) = [''rust''] \<and>
   fst (getOrCreateHashtag [''rust''] ''Rust'' demo_world) = Inl DuplicateKey"
  by code_simp

text \<open>
  Claim C1, amended. For every tag whose normalized text is absent at the initial lookup
  and whose insert then fails with the unique-text (duplicate-key) violation,
  \<open>getOrCreateHashtag\<close> does not read again: it throws the duplicate-key error to its
  caller and writes nothing itself, so the world it leaves is the one the other writers
  made.
\<close>

theorem getOrCreateHashtag_race_throws:
  assumes "select_hashtag w (toLowerCase tag) = Inr None"
    and "fst (insert_hashtag (other_writers rivals w) (toLowerCase tag)) = Inl DuplicateKey"
  shows "getOrCreateHashtag rivals tag w = (Inl DuplicateKey, other_writers rivals w)"
proof -
  from assms(2) have "snd (insert_hashtag (other_writers rivals w) (toLowerCase tag)) = other_writers rivals w"
    by (rule insert_hashtag_Inl)
  with assms(2) have "insert_hashtag (other_writers rivals w) (toLowerCase tag) =
      (Inl DuplicateKey, other_writers rivals w)"
    by (simp add: prod_eq_iff)
  with assms(1) show ?thesis
    by (simp add: getOrCreateHashtag_def Let_def)
qed

theorem getOrCreateHashtag_race_throws_witness:
  "select_hashtag demo_world (toLowerCase ''Rust'') = Inr None \<and>
   fst (insert_hashtag (other_writers [''rust''] demo_world) (toLowerCase ''Rust'')) = Inl DuplicateKey \<and>
   getOrCreateHashtag [''rust''] ''Rust'' demo_world =
     (Inl DuplicateKey, other_writers [''rust''] demo_world)"
  using getOrCreateHashtag_race_throws [OF race_lookup race_insert] race_lookup race_insert
  by simp

subsection \<open>The post-hashtag link\<close>

lemma set_insert_ignore: "set (insert_ignore tbl rows) = set tbl \<union> set rows"
  by (induction rows arbitrary: tbl) auto

lemma distinct_insert_ignore: "distinct tbl \<Longrightarrow> distinct (insert_ignore tbl rows)"
  by (induction rows arbitrary: tbl) auto

lemma insert_ignore_present: "set rows \<subseteq> set tbl \<Longrightarrow> insert_ignore tbl rows = tbl"
  by (induction rows arbitrary: tbl) auto

lemma distinct_count_list_one: "distinct ys \<Longrightarrow> y \<in> set ys \<Longrightarrow> count_list ys y = 1"
  by (induction ys) auto

lemma upsert_post_hashtags_Inr:
  assumes "upsert_post_hashtags w rows = (Inr u, w1)"
  shows "fault w PostHashtags Insert = None \<and>
         w1 = w\<lparr>post_hashtags := insert_ignore (post_hashtags w) rows\<rparr>"
proof (cases "fault w PostHashtags Insert")
  case None
  with assms show ?thesis
    by (simp add: upsert_post_hashtags_def split: if_splits)
next
  case (Some e)
  with assms show ?thesis by (simp add: upsert_post_hashtags_def)
qed

lemma upsert_post_hashtags_idempotent:
  assumes "upsert_post_hashtags w rows = (Inr (), w1)"
    and "distinct (post_hashtags w)"
    and "(p, h) \<in> set rows"
  shows "upsert_post_hashtags w1 rows = (Inr (), w1) \<and>
         count_list (post_hashtags w1) (p, h) = 1"
proof -
  from upsert_post_hashtags_Inr [OF assms(1)]
  have f: "fault w PostHashtags Insert = None"
    and w1: "w1 = w\<lparr>post_hashtags := insert_ignore (post_hashtags w) rows\<rparr>"
    by simp_all
  have sub: "set rows \<subseteq> set (post_hashtags w1)"
    by (simp add: w1 set_insert_ignore)
  then have same: "insert_ignore (post_hashtags w1) rows = post_hashtags w1"
    by (rule insert_ignore_present)
  have fk: "list_all (\<lambda>(p, h). (p, h) \<in> set (post_hashtags w1) \<or>
              (p \<in> set (map post_id (posts w1)) \<and> h \<in> set (map hashtag_id (hashtags w1)))) rows"
    using sub by (auto simp: list_all_iff)
  have f1: "fault w1 PostHashtags Insert = None"
    using f by (simp add: w1)
  have "upsert_post_hashtags w1 rows = (Inr (), w1\<lparr>post_hashtags := post_hashtags w1\<rparr>)"
    using f1 fk same by (simp add: upsert_post_hashtags_def)
  then have again: "upsert_post_hashtags w1 rows = (Inr (), w1)" by simp
  have "distinct (post_hashtags w1)"
    using assms(2) by (simp add: w1 distinct_insert_ignore)
  moreover have "(p, h) \<in> set (post_hashtags w1)"
    using sub assms(3) by (rule subsetD)
  ultimately have "count_list (post_hashtags w1) (p, h) = 1"
    by (rule distinct_count_list_one)
  with again show ?thesis by simp
qed

lemma upsert_post_hashtags_console: "console (snd (upsert_post_hashtags w rows)) = console w"
  by (simp add: upsert_post_hashtags_def split: option.splits)

lemma hashtags_grow_refl: "hashtags_grow w w"
  by (simp add: hashtags_grow_def)

lemma hashtags_grow_trans:
  assumes "hashtags_grow w w1" and "hashtags_grow w1 w2"
  shows "hashtags_grow w w2"
proof -
  from assms have a: "w1 = w\<lparr>hashtags := hashtags w1\<rparr>" and b: "w2 = w1\<lparr>hashtags := hashtags w2\<rparr>"
    by (simp_all add: hashtags_grow_def)
  from b have "w2 = (w\<lparr>hashtags := hashtags w1\<rparr>)\<lparr>hashtags := hashtags w2\<rparr>"
    by (subst (asm) a) simp
  then have "w2 = w\<lparr>hashtags := hashtags w2\<rparr>" by simp
  moreover from assms have "set (hashtags w) \<subseteq> set (hashtags w2)"
    by (auto simp: hashtags_grow_def)
  moreover from assms have "distinct (map hashtag_tag (hashtags w)) \<longrightarrow>
      distinct (map hashtag_tag (hashtags w2))"
    by (simp add: hashtags_grow_def)
  ultimately show ?thesis by (simp add: hashtags_grow_def)
qed

lemma hashtags_grow_fields:
  assumes "hashtags_grow w w'"
  shows "console w' = console w" and "post_hashtags w' = post_hashtags w"
    and "fault w' = fault w" and "posts w' = posts w"
proof -
  from assms have e: "w' = w\<lparr>hashtags := hashtags w'\<rparr>" by (simp add: hashtags_grow_def)
  have "console (w\<lparr>hashtags := hashtags w'\<rparr>) = console w" by simp
  with e show "console w' = console w" by simp
  have "post_hashtags (w\<lparr>hashtags := hashtags w'\<rparr>) = post_hashtags w" by simp
  with e show "post_hashtags w' = post_hashtags w" by simp
  have "fault (w\<lparr>hashtags := hashtags w'\<rparr>) = fault w" by simp
  with e show "fault w' = fault w" by simp
  have "posts (w\<lparr>hashtags := hashtags w'\<rparr>) = posts w" by simp
  with e show "posts w' = posts w" by simp
qed

lemma hashtags_insert_grow: "hashtags_grow w (snd (hashtags_insert w t))"
  by (auto simp: hashtags_insert_def hashtags_grow_def Let_def)

lemma other_writers_grow: "hashtags_grow w (other_writers ts w)"
proof (induction ts arbitrary: w)
  case Nil
  show ?case by (simp add: hashtags_grow_refl)
next
  case (Cons t ts)
  from hashtags_insert_grow [of w t] Cons.IH [of "snd (hashtags_insert w t)"]
  have "hashtags_grow w (other_writers ts (snd (hashtags_insert w t)))"
    by (rule hashtags_grow_trans)
  then show ?case by simp
qed

lemma insert_hashtag_grow: "hashtags_grow w (snd (insert_hashtag w t))"
proof (cases "fault w Hashtags Insert")
  case None
  with hashtags_insert_grow [of w t] show ?thesis by (simp add: insert_hashtag_def)
next
  case (Some e)
  then show ?thesis by (simp add: insert_hashtag_def hashtags_grow_refl)
qed

lemma insert_hashtag_row:
  assumes "insert_hashtag w t = (Inr h, w')"
  shows "h \<in> set (hashtags w') \<and> hashtag_tag h = t"
proof (cases "fault w Hashtags Insert")
  case None
  with assms show ?thesis
    by (auto simp: insert_hashtag_def hashtags_insert_def Let_def split: if_splits)
next
  case (Some e)
  with assms show ?thesis by (simp add: insert_hashtag_def)
qed

lemma maybeSingle_Some: "maybeSingle rows = Inr (Some r) \<Longrightarrow> rows = [r]"
  by (auto simp: maybeSingle_def split: list.splits)

lemma select_hashtag_row:
  assumes "select_hashtag w t = Inr (Some h)"
  shows "h \<in> set (hashtags w) \<and> hashtag_tag h = t"
proof (cases "fault w Hashtags Select")
  case None
  with assms have "maybeSingle (filter (\<lambda>h. hashtag_tag h = t) (hashtags w)) = Inr (Some h)"
    by (simp add: select_hashtag_def)
  then have "filter (\<lambda>h. hashtag_tag h = t) (hashtags w) = [h]" by (rule maybeSingle_Some)
  then have "h \<in> set (filter (\<lambda>h. hashtag_tag h = t) (hashtags w))" by simp
  then show ?thesis by simp
next
  case (Some e)
  with assms show ?thesis by (simp add: select_hashtag_def)
qed

lemma getOrCreateHashtag_cases:
  "(\<exists>existing. select_hashtag w (toLowerCase tag) = Inr (Some existing) \<and>
       getOrCreateHashtag rivals tag w = (Inr existing, w)) \<or>
   getOrCreateHashtag rivals tag w = insert_hashtag (other_writers rivals w) (toLowerCase tag)"
  by (auto simp: getOrCreateHashtag_def Let_def split: sum.splits option.splits prod.splits)

lemma getOrCreateHashtag_grow: "hashtags_grow w (snd (getOrCreateHashtag rivals tag w))"
  using getOrCreateHashtag_cases [of w tag rivals]
proof
  assume "\<exists>existing. select_hashtag w (toLowerCase tag) = Inr (Some existing) \<and>
       getOrCreateHashtag rivals tag w = (Inr existing, w)"
  then show ?thesis by (auto simp: hashtags_grow_refl)
next
  assume e: "getOrCreateHashtag rivals tag w = insert_hashtag (other_writers rivals w) (toLowerCase tag)"
  from other_writers_grow [of w rivals] insert_hashtag_grow [of "other_writers rivals w" "toLowerCase tag"]
  have "hashtags_grow w (snd (insert_hashtag (other_writers rivals w) (toLowerCase tag)))"
    by (rule hashtags_grow_trans)
  with e show ?thesis by simp
qed

lemma getOrCreateHashtag_row:
  assumes "getOrCreateHashtag rivals tag w = (Inr h, w')"
  shows "h \<in> set (hashtags w') \<and> hashtag_tag h = toLowerCase tag"
  using getOrCreateHashtag_cases [of w tag rivals]
proof
  assume "\<exists>existing. select_hashtag w (toLowerCase tag) = Inr (Some existing) \<and>
       getOrCreateHashtag rivals tag w = (Inr existing, w)"
  with assms have "select_hashtag w (toLowerCase tag) = Inr (Some h)" and "w' = w" by auto
  with select_hashtag_row [of w "toLowerCase tag" h] show ?thesis by simp
next
  assume "getOrCreateHashtag rivals tag w = insert_hashtag (other_writers rivals w) (toLowerCase tag)"
  with assms have "insert_hashtag (other_writers rivals w) (toLowerCase tag) = (Inr h, w')" by simp
  then show ?thesis by (rule insert_hashtag_row)
qed

lemma promise_all_hashtags_Cons:
  "promise_all_hashtags rivals (t # ts) w =
     (let r = fst (getOrCreateHashtag rivals t w);
          w1 = snd (getOrCreateHashtag rivals t w);
          rs = fst (promise_all_hashtags rivals ts w1);
          w2 = snd (promise_all_hashtags rivals ts w1)
      in (case r of Inl e \<Rightarrow> Inl e
          | Inr h \<Rightarrow> (case rs of Inl e \<Rightarrow> Inl e | Inr hs \<Rightarrow> Inr (h # hs)), w2))"
  by (simp add: Let_def split: prod.splits sum.splits)

lemma promise_all_hashtags_grow: "hashtags_grow w (snd (promise_all_hashtags rivals ts w))"
proof (induction ts arbitrary: w)
  case Nil
  show ?case by (simp add: hashtags_grow_refl)
next
  case (Cons t ts)
  from getOrCreateHashtag_grow [of w rivals t] Cons.IH [of "snd (getOrCreateHashtag rivals t w)"]
  have "hashtags_grow w (snd (promise_all_hashtags rivals ts (snd (getOrCreateHashtag rivals t w))))"
    by (rule hashtags_grow_trans)
  then show ?case by (simp add: promise_all_hashtags_Cons Let_def del: promise_all_hashtags.simps(2))
qed

lemma promise_all_hashtags_rows:
  assumes "promise_all_hashtags rivals ts w = (Inr hs, w')"
  shows "list_all2 (\<lambda>t h. h \<in> set (hashtags w') \<and> hashtag_tag h = toLowerCase t) ts hs"
  using assms
proof (induction ts arbitrary: w hs)
  case Nil
  then show ?case by simp
next
  case (Cons t ts)
  let ?w1 = "snd (getOrCreateHashtag rivals t w)"
  from Cons.prems obtain h hs' where
    g: "fst (getOrCreateHashtag rivals t w) = Inr h" and
    r: "fst (promise_all_hashtags rivals ts ?w1) = Inr hs'" and
    hs: "hs = h # hs'" and w': "w' = snd (promise_all_hashtags rivals ts ?w1)"
    by (auto simp: promise_all_hashtags_Cons Let_def simp del: promise_all_hashtags.simps(2)
        split: sum.splits)
  from g have "getOrCreateHashtag rivals t w = (Inr h, ?w1)" by (simp add: prod_eq_iff)
  then have h1: "h \<in> set (hashtags ?w1) \<and> hashtag_tag h = toLowerCase t"
    by (rule getOrCreateHashtag_row)
  from promise_all_hashtags_grow [of ?w1 rivals ts] w'
  have "set (hashtags ?w1) \<subseteq> set (hashtags w')" by (simp add: hashtags_grow_def)
  with h1 have h2: "h \<in> set (hashtags w') \<and> hashtag_tag h = toLowerCase t" by auto
  from r w' have "promise_all_hashtags rivals ts ?w1 = (Inr hs', w')" by (simp add: prod_eq_iff)
  then have "list_all2 (\<lambda>t h. h \<in> set (hashtags w') \<and> hashtag_tag h = toLowerCase t) ts hs'"
    by (rule Cons.IH)
  with h2 hs show ?case by simp
qed

lemma filter_single:
  "distinct (map f xs) \<Longrightarrow> x \<in> set xs \<Longrightarrow> filter (\<lambda>y. f y = f x) xs = [x]"
proof (induction xs)
  case Nil
  then show ?case by simp
next
  case (Cons a xs)
  show ?case
  proof (cases "a = x")
    case True
    with Cons.prems have "f x \<notin> f ` set xs" by simp
    then have "\<forall>y \<in> set xs. f y \<noteq> f x" by (metis imageI)
    then have "filter (\<lambda>y. f y = f x) xs = []" by (simp add: filter_empty_conv)
    with True show ?thesis by simp
  next
    case False
    with Cons.prems have "x \<in> set xs" and "f a \<noteq> f x" by auto
    with Cons show ?thesis by simp
  qed
qed

lemma select_hashtag_existing:
  assumes "fault w Hashtags Select = None" and "distinct (map hashtag_tag (hashtags w))"
    and "h \<in> set (hashtags w)"
  shows "select_hashtag w (hashtag_tag h) = Inr (Some h)"
proof -
  from assms(2,3) have "filter (\<lambda>g. hashtag_tag g = hashtag_tag h) (hashtags w) = [h]"
    by (rule filter_single)
  with assms(1) show ?thesis by (simp add: select_hashtag_def maybeSingle_def)
qed

lemma getOrCreateHashtag_existing:
  assumes "fault w Hashtags Select = None" and "distinct (map hashtag_tag (hashtags w))"
    and "h \<in> set (hashtags w)" and "hashtag_tag h = toLowerCase t"
  shows "getOrCreateHashtag rivals t w = (Inr h, w)"
proof -
  from select_hashtag_existing [OF assms(1-3)] assms(4)
  have "select_hashtag w (toLowerCase t) = Inr (Some h)" by simp
  then show ?thesis by (simp add: getOrCreateHashtag_def Let_def)
qed

lemma promise_all_hashtags_existing:
  assumes "list_all2 (\<lambda>t h. h \<in> set (hashtags w) \<and> hashtag_tag h = toLowerCase t) ts hs"
    and "fault w Hashtags Select = None" and "distinct (map hashtag_tag (hashtags w))"
  shows "promise_all_hashtags rivals ts w = (Inr hs, w)"
  using assms(1)
proof (induction ts hs rule: list_all2_induct)
  case Nil
  show ?case by simp
next
  case (Cons t ts h hs)
  from Cons.hyps(1) have "getOrCreateHashtag rivals t w = (Inr h, w)"
    using assms(2,3) by (simp add: getOrCreateHashtag_existing)
  with Cons.IH show ?case
    by (simp add: promise_all_hashtags_Cons Let_def del: promise_all_hashtags.simps(2))
qed

lemma list_all2_partner: "list_all2 P xs ys \<Longrightarrow> x \<in> set xs \<Longrightarrow> \<exists>y \<in> set ys. P x y"
  by (induction xs ys rule: list_all2_induct) auto

lemma demo_link_first: "fst (linkHashtags [] 1 tagged_text demo_world) = Inr ()"
  by code_simp

lemma demo_link_quiet: "console (snd (linkHashtags [] 1 tagged_text demo_world)) = console demo_world"
  by code_simp

lemma demo_link_rows:
  "map hashtag_tag (hashtags (snd (linkHashtags [] 1 tagged_text demo_world))) = [''rust'', ''go''] \<and>
   post_hashtags (snd (linkHashtags [] 1 tagged_text demo_world)) = [(1, 1), (1, 2)]"
  by code_simp

text \<open>
  Claim C7. When \<open>linkHashtags\<close> has linked a post to the hashtags of a text (it resolved
  and its upsert logged no error), every tag of the text has its hashtag row and exactly
  one link row from the post to it, and linking the same post and text again resolves,
  logs nothing and leaves every table as it was: the second insert of an existing pair is
  a no-op, never an error. (The store answers the hashtag lookups; tags and link pairs
  were unique before, as the schema's unique constraint and primary key demand.)
\<close>

theorem linkHashtags_twice_one_link:
  assumes run: "linkHashtags rivals postId content w = (Inr (), w1)"
    and quiet: "console w1 = console w"
    and sel: "fault w Hashtags Select = None"
    and uq: "distinct (map hashtag_tag (hashtags w))"
    and pk: "distinct (post_hashtags w)"
  shows "linkHashtags rivals2 postId content w1 = (Inr (), w1) \<and>
         list_all (\<lambda>t. \<exists>h \<in> set (hashtags w1). hashtag_tag h = t \<and>
                      count_list (post_hashtags w1) (postId, hashtag_id h) = 1)
           (parseHashtags content)"
proof (cases "array_from_set (parseHashtags content) = []")
  case True
  with run have "w1 = w" by (simp add: linkHashtags_def)
  with True have again: "linkHashtags rivals2 postId content w1 = (Inr (), w1)"
    by (simp add: linkHashtags_def)
  from True have "set (parseHashtags content) = {}"
    by (metis set_array_from_set set_empty)
  then have "parseHashtags content = []" by simp
  with again show ?thesis by simp
next
  case False
  let ?tags = "array_from_set (parseHashtags content)"
  obtain r wa where pa: "promise_all_hashtags rivals ?tags w = (r, wa)"
    by (cases "promise_all_hashtags rivals ?tags w")
  from promise_all_hashtags_grow [of w rivals ?tags] pa have grow: "hashtags_grow w wa" by simp
  from run False pa obtain hs where r: "r = Inr hs"
    by (cases r) (simp_all add: linkHashtags_def)
  let ?rows = "map (\<lambda>h. (postId, hashtag_id h)) hs"
  obtain r2 wb where up: "upsert_post_hashtags wa ?rows = (r2, wb)"
    by (cases "upsert_post_hashtags wa ?rows")
  from upsert_post_hashtags_console [of wa ?rows] up have "console wb = console wa" by simp
  with hashtags_grow_fields(1) [OF grow] have cb: "console wb = console w" by simp
  have r2: "r2 = Inr ()"
  proof (cases r2)
    case (Inl e)
    with run False pa r up have "w1 = console_error ''post_hashtags error:'' e wb"
      by (simp add: linkHashtags_def)
    with cb have "console w1 = console w @ [(''post_hashtags error:'', e)]"
      by (simp add: console_error_def)
    with quiet show ?thesis by simp
  next
    case (Inr u)
    then show ?thesis by simp
  qed
  with run False pa r up have w1: "w1 = wb" by (simp add: linkHashtags_def)
  from up r2 w1 have up1: "upsert_post_hashtags wa ?rows = (Inr (), w1)" by simp
  from upsert_post_hashtags_Inr [OF up1]
  have w1': "w1 = wa\<lparr>post_hashtags := insert_ignore (post_hashtags wa) ?rows\<rparr>" by simp
  have tags1: "hashtags w1 = hashtags wa" by (subst w1') simp
  have fault1: "fault w1 = fault w"
    using hashtags_grow_fields(3) [OF grow] by (subst w1') simp
  have uq1: "distinct (map hashtag_tag (hashtags w1))"
    using grow uq tags1 by (simp add: hashtags_grow_def)
  have pk1: "distinct (post_hashtags wa)"
    using hashtags_grow_fields(2) [OF grow] pk by simp
  from pa r have "promise_all_hashtags rivals ?tags w = (Inr hs, wa)" by simp
  then have "list_all2 (\<lambda>t h. h \<in> set (hashtags wa) \<and> hashtag_tag h = toLowerCase t) ?tags hs"
    by (rule promise_all_hashtags_rows)
  with tags1 have rows: "list_all2 (\<lambda>t h. h \<in> set (hashtags w1) \<and> hashtag_tag h = toLowerCase t) ?tags hs"
    by simp
  from sel fault1 have sel1: "fault w1 Hashtags Select = None" by simp
  have pa2: "promise_all_hashtags rivals2 ?tags w1 = (Inr hs, w1)"
    using rows sel1 uq1 by (rule promise_all_hashtags_existing)
  have m: "\<And>h. h \<in> set hs \<Longrightarrow> count_list (post_hashtags w1) (postId, hashtag_id h) = 1 \<and>
             upsert_post_hashtags w1 ?rows = (Inr (), w1)"
  proof -
    fix h assume "h \<in> set hs"
    then have "(postId, hashtag_id h) \<in> set ?rows" by simp
    with upsert_post_hashtags_idempotent [OF up1 pk1]
    show "count_list (post_hashtags w1) (postId, hashtag_id h) = 1 \<and>
             upsert_post_hashtags w1 ?rows = (Inr (), w1)" by simp
  qed
  from rows False have "hs \<noteq> []" by auto
  then obtain h0 where "h0 \<in> set hs" by (cases hs) auto
  with m have up2: "upsert_post_hashtags w1 ?rows = (Inr (), w1)" by simp
  from False pa2 up2 have again: "linkHashtags rivals2 postId content w1 = (Inr (), w1)"
    by (simp add: linkHashtags_def)
  have "\<forall>t \<in> set (parseHashtags content). \<exists>h \<in> set (hashtags w1). hashtag_tag h = t \<and>
                      count_list (post_hashtags w1) (postId, hashtag_id h) = 1"
  proof
    fix t assume t: "t \<in> set (parseHashtags content)"
    then have "t \<in> set ?tags" by (simp add: set_array_from_set)
    with list_all2_partner [OF rows, of t]
    obtain h where h: "h \<in> set hs" "h \<in> set (hashtags w1)" "hashtag_tag h = toLowerCase t"
      by auto
    from t have "toLowerCase t = t" by (rule parseHashtags_lowered)
    with h m [OF h(1)] show "\<exists>h \<in> set (hashtags w1). hashtag_tag h = t \<and>
                      count_list (post_hashtags w1) (postId, hashtag_id h) = 1"
      by auto
  qed
  with again show ?thesis by (simp add: list_all_iff)
qed

theorem linkHashtags_twice_one_link_witness:
  "fst (linkHashtags [] 1 tagged_text demo_world) = Inr () \<and>
   console (snd (linkHashtags [] 1 tagged_text demo_world)) = console demo_world \<and>
   fault demo_world Hashtags Select = None \<and>
   distinct (map hashtag_tag (hashtags demo_world)) \<and>
   distinct (post_hashtags demo_world) \<and>
   parseHashtags tagged_text = [''rust'', ''rust'', ''go''] \<and>
   map hashtag_tag (hashtags (snd (linkHashtags [] 1 tagged_text demo_world))) = [''rust'', ''go''] \<and>
   post_hashtags (snd (linkHashtags [] 1 tagged_text demo_world)) = [(1, 1), (1, 2)] \<and>
   linkHashtags [''go''] 1 tagged_text (snd (linkHashtags [] 1 tagged_text demo_world)) =
     (Inr (), snd (linkHashtags [] 1 tagged_text demo_world))"
proof -
  have run: "linkHashtags [] 1 tagged_text demo_world =
      (Inr (), snd (linkHashtags [] 1 tagged_text demo_world))"
    using demo_link_first by (simp add: prod_eq_iff)
  have sel: "fault demo_world Hashtags Select = None" by (simp add: demo_world_def)
  have uq: "distinct (map hashtag_tag (hashtags demo_world))" by (simp add: demo_world_def)
  have pk: "distinct (post_hashtags demo_world)" by (simp add: demo_world_def)
  have ph: "parseHashtags tagged_text = [''rust'', ''rust'', ''go'']" by code_simp
  from linkHashtags_twice_one_link [OF run demo_link_quiet sel uq pk, of "[''go'']"]
  have again: "linkHashtags [''go''] 1 tagged_text (snd (linkHashtags [] 1 tagged_text demo_world)) =
     (Inr (), snd (linkHashtags [] 1 tagged_text demo_world))"
    by (rule conjunct1)
  from demo_link_first demo_link_quiet sel uq pk ph demo_link_rows again show ?thesis
    by (intro conjI) simp_all
qed

subsection \<open>Mentions\<close>

lemma mentions_append_new:
  "\<exists>new. mentions_append tbl rows = tbl @ new \<and>
         map (\<lambda>m. (mention_post_id m, mention_user_id m)) new = rows"
proof (induction rows arbitrary: tbl)
  case Nil
  show ?case by simp
next
  case (Cons r rows)
  obtain p u where r: "r = (p, u)" by (cases r)
  define m where "m = \<lparr>mention_id = fresh_uuid (map mention_id tbl), mention_post_id = p, mention_user_id = u\<rparr>"
  from Cons.IH [of "tbl @ [m]"] obtain new where
    a: "mentions_append (tbl @ [m]) rows = (tbl @ [m]) @ new" and
    b: "map (\<lambda>m. (mention_post_id m, mention_user_id m)) new = rows"
    by auto
  have c: "mentions_append tbl (r # rows) = mentions_append (tbl @ [m]) rows"
    by (simp add: r m_def)
  have d: "mention_post_id m = p" "mention_user_id m = u"
    by (simp_all add: m_def)
  have "mentions_append tbl (r # rows) = tbl @ (m # new)"
    using a c by simp
  moreover have "map (\<lambda>m. (mention_post_id m, mention_user_id m)) (m # new) = r # rows"
    using b d r by simp
  ultimately show ?case by (intro exI conjI)
qed

lemma count_pairs:
  "length (filter (\<lambda>m. mention_post_id m = p \<and> mention_user_id m = u) new) =
        count_list (map (\<lambda>m. (mention_post_id m, mention_user_id m)) new) (p, u)"
  by (induction new) simp_all

lemma count_list_paired: "count_list (map (\<lambda>q. (a, f q)) xs) (a, y) = count_list (map f xs) y"
  by (induction xs) simp_all

lemma mentions_append_count:
  "length (filter (\<lambda>m. mention_post_id m = p \<and> mention_user_id m = u) (mentions_append tbl rows)) =
   length (filter (\<lambda>m. mention_post_id m = p \<and> mention_user_id m = u) tbl) + count_list rows (p, u)"
proof -
  from mentions_append_new [of tbl rows] obtain new where
    n: "mentions_append tbl rows = tbl @ new" and
    k: "map (\<lambda>m. (mention_post_id m, mention_user_id m)) new = rows"
    by auto
  from count_pairs [of p u new] k
  have "length (filter (\<lambda>m. mention_post_id m = p \<and> mention_user_id m = u) new) = count_list rows (p, u)"
    by simp
  with n show ?thesis by simp
qed

lemma insertMentions_accepted:
  assumes "fault w Profiles Select = None" and "fault w Mentions Insert = None"
    and "postId \<in> set (map post_id (posts w))"
  shows "insertMentions postId content w =
     (Inr (), w\<lparr>mentions := mentions_append (mentions w)
                  (map (\<lambda>p. (postId, profile_id p)) (resolved_profiles w content))\<rparr>)"
proof (cases "resolved_profiles w content = []")
  case True
  then show ?thesis
    using assms
    by (simp add: insertMentions_def Let_def select_profiles_in_def resolved_profiles_def)
next
  case False
  then have ne: "array_from_set (parseMentions content) \<noteq> []"
    by (auto simp: resolved_profiles_def)
  have fk: "list_all (\<lambda>(p, u). p \<in> set (map post_id (posts w)) \<and> u \<in> set (map profile_id (profiles w)))
              (map (\<lambda>p. (postId, profile_id p)) (resolved_profiles w content))"
    using assms(3) by (auto simp: list_all_iff resolved_profiles_def)
  from False ne fk assms(1,2) show ?thesis
    by (simp add: insertMentions_def Let_def select_profiles_in_def resolved_profiles_def
        insert_mentions_def)
qed

lemma insertMentions_mentions_cases:
  "mentions (snd (insertMentions postId content w)) = mentions w \<or>
   mentions (snd (insertMentions postId content w)) =
     mentions_append (mentions w) (map (\<lambda>p. (postId, profile_id p)) (resolved_profiles w content))"
  by (simp add: insertMentions_def Let_def select_profiles_in_def resolved_profiles_def
        insert_mentions_def console_error_def split: option.splits)

lemma insertMentions_new:
  "\<exists>new. mentions (snd (insertMentions postId content w)) = mentions w @ new \<and>
         set (map mention_user_id new) \<subseteq> profile_id ` set (resolved_profiles w content)"
proof -
  from mentions_append_new
    [of "mentions w" "map (\<lambda>p. (postId, profile_id p)) (resolved_profiles w content)"]
  obtain new where
    n: "mentions_append (mentions w) (map (\<lambda>p. (postId, profile_id p)) (resolved_profiles w content))
          = mentions w @ new" and
    k: "map (\<lambda>m. (mention_post_id m, mention_user_id m)) new =
          map (\<lambda>p. (postId, profile_id p)) (resolved_profiles w content)"
    by auto
  from k have "map snd (map (\<lambda>m. (mention_post_id m, mention_user_id m)) new) =
     map snd (map (\<lambda>p. (postId, profile_id p)) (resolved_profiles w content))"
    by (rule arg_cong)
  then have u: "map mention_user_id new = map profile_id (resolved_profiles w content)"
    by (simp add: comp_def)
  from insertMentions_mentions_cases [of postId content w] show ?thesis
  proof
    assume "mentions (snd (insertMentions postId content w)) = mentions w"
    then have "mentions (snd (insertMentions postId content w)) = mentions w @ [] \<and>
         set (map mention_user_id []) \<subseteq> profile_id ` set (resolved_profiles w content)"
      by simp
    then show ?thesis by (rule exI)
  next
    assume "mentions (snd (insertMentions postId content w)) =
      mentions_append (mentions w) (map (\<lambda>p. (postId, profile_id p)) (resolved_profiles w content))"
    then have "mentions (snd (insertMentions postId content w)) = mentions w @ new"
      using n by simp
    moreover from u have "set (map mention_user_id new) \<subseteq> profile_id ` set (resolved_profiles w content)"
      by simp
    ultimately show ?thesis by (intro exI conjI)
  qed
qed

lemma uppercase_handle_unresolved:
  assumes "\<exists>c \<in> set (profile_handle p). isUpperAscii c"
  shows "p \<notin> set (resolved_profiles w content)"
  using assms parseMentions_lower [of "profile_handle p" content]
  by (auto simp: resolved_profiles_def set_array_from_set)

text \<open>
  Claim C9. Recording mentions is not idempotent: when the store answers and the post
  exists, each call of \<open>insertMentions\<close> with the same post and text adds one more mention
  row for every profile whose handle the text resolves to, so two calls add two rows
  (profile ids being unique, as the primary key of \<open>profiles\<close> demands).
\<close>

theorem mentions_not_idempotent:
  assumes "fault w Profiles Select = None" and "fault w Mentions Insert = None"
    and "postId \<in> set (map post_id (posts w))"
    and "distinct (map profile_id (profiles w))"
    and "p \<in> set (profiles w)" and "profile_handle p \<in> set (parseMentions content)"
  shows "mention_count (snd (insertMentions postId content w)) postId (profile_id p) =
           mention_count w postId (profile_id p) + 1 \<and>
         mention_count (snd (insertMentions postId content
             (snd (insertMentions postId content w)))) postId (profile_id p) =
           mention_count w postId (profile_id p) + 2"
proof -
  let ?rows = "map (\<lambda>q. (postId, profile_id q)) (resolved_profiles w content)"
  let ?w1 = "w\<lparr>mentions := mentions_append (mentions w) ?rows\<rparr>"
  have w1: "insertMentions postId content w = (Inr (), ?w1)"
    using assms(1-3) by (rule insertMentions_accepted)
  have res1: "resolved_profiles ?w1 content = resolved_profiles w content"
    by (simp add: resolved_profiles_def)
  have w2: "insertMentions postId content ?w1 =
      (Inr (), ?w1\<lparr>mentions := mentions_append (mentions ?w1) ?rows\<rparr>)"
    using insertMentions_accepted [of ?w1 postId content] assms(1-3) res1 by simp
  have "p \<in> set (resolved_profiles w content)"
    using assms(5,6) by (simp add: resolved_profiles_def set_array_from_set)
  moreover have "distinct (map profile_id (resolved_profiles w content))"
    using assms(4) by (simp add: resolved_profiles_def distinct_map_filter)
  ultimately have one: "count_list (map profile_id (resolved_profiles w content)) (profile_id p) = 1"
    by (simp add: distinct_count_list_one)
  have "count_list ?rows (postId, profile_id p) =
        count_list (map profile_id (resolved_profiles w content)) (profile_id p)"
    by (rule count_list_paired)
  with one have c: "count_list ?rows (postId, profile_id p) = 1" by simp
  show ?thesis
    by (simp add: w1 w2 mention_count_def mentions_append_count c)
qed

theorem mentions_not_idempotent_witness:
  "fault demo_world Profiles Select = None \<and> fault demo_world Mentions Insert = None \<and>
   1 \<in> set (map post_id (posts demo_world)) \<and>
   distinct (map profile_id (profiles demo_world)) \<and>
   alice \<in> set (profiles demo_world) \<and>
   profile_handle alice \<in> set (parseMentions ''hi @alice'') \<and>
   mention_count demo_world 1 (profile_id alice) = 0 \<and>
   mention_count (snd (insertMentions 1 ''hi @alice'' demo_world)) 1 (profile_id alice) = 1 \<and>
   mention_count (snd (insertMentions 1 ''hi @alice''
      (snd (insertMentions 1 ''hi @alice'' demo_world)))) 1 (profile_id alice) = 2"
proof -
  have a: "fault demo_world Profiles Select = None" by (simp add: demo_world_def)
  have b: "fault demo_world Mentions Insert = None" by (simp add: demo_world_def)
  have c: "1 \<in> set (map post_id (posts demo_world))" by (simp add: demo_world_def demo_post_def)
  have d: "distinct (map profile_id (profiles demo_world))" by code_simp
  have e: "alice \<in> set (profiles demo_world)" by (simp add: demo_world_def)
  have f: "profile_handle alice \<in> set (parseMentions ''hi @alice'')" by code_simp
  have z: "mention_count demo_world 1 (profile_id alice) = 0"
    by (simp add: mention_count_def demo_world_def)
  from mentions_not_idempotent [OF a b c d e f] a b c d e f z show ?thesis by simp
qed

text \<open>
  Claim C10. A profile whose stored handle contains an uppercase letter A-Z is never
  resolved by the batch lookup of \<open>insertMentions\<close>, and no mention row that a call adds
  names it (profile ids being unique): the extracted handles are all lowercase and the
  lookup compares handles exactly.
\<close>

theorem uppercase_handle_never_mentioned:
  assumes "p \<in> set (profiles w)"
    and "\<exists>c \<in> set (profile_handle p). isUpperAscii c"
    and "distinct (map profile_id (profiles w))"
  shows "p \<notin> set (resolved_profiles w content) \<and>
         take (length (mentions w)) (mentions (snd (insertMentions postId content w))) = mentions w \<and>
         (\<forall>m \<in> set (new_mentions w (snd (insertMentions postId content w))).
            mention_user_id m \<noteq> profile_id p)"
proof -
  have unres: "p \<notin> set (resolved_profiles w content)"
    using assms(2) by (rule uppercase_handle_unresolved)
  from insertMentions_new [of postId content w] obtain new where
    n: "mentions (snd (insertMentions postId content w)) = mentions w @ new" and
    s: "set (map mention_user_id new) \<subseteq> profile_id ` set (resolved_profiles w content)"
    by auto
  have "profile_id p \<notin> profile_id ` set (resolved_profiles w content)"
  proof
    assume "profile_id p \<in> profile_id ` set (resolved_profiles w content)"
    then obtain q where q: "q \<in> set (resolved_profiles w content)" "profile_id q = profile_id p"
      by auto
    then have "q \<in> set (profiles w)" by (simp add: resolved_profiles_def)
    with assms(1,3) q(2) have "q = p"
      by (simp add: distinct_map inj_on_def)
    with q(1) unres show False by simp
  qed
  have "\<forall>m \<in> set new. mention_user_id m \<noteq> profile_id p"
  proof
    fix m assume "m \<in> set new"
    then have "mention_user_id m \<in> set (map mention_user_id new)" by simp
    with s have "mention_user_id m \<in> profile_id ` set (resolved_profiles w content)"
      by (rule subsetD)
    with \<open>profile_id p \<notin> profile_id ` set (resolved_profiles w content)\<close>
    show "mention_user_id m \<noteq> profile_id p" by metis
  qed
  with n unres show ?thesis by (simp add: new_mentions_def)
qed

theorem uppercase_handle_never_mentioned_witness:
  "bob \<in> set (profiles demo_world) \<and>
   (\<exists>c \<in> set (profile_handle bob). isUpperAscii c) \<and>
   distinct (map profile_id (profiles demo_world)) \<and>
   bob \<notin> set (resolved_profiles demo_world ''hi @Bob and @alice'') \<and>
   map mention_user_id (new_mentions demo_world
      (snd (insertMentions 1 ''hi @Bob and @alice'' demo_world))) = [1] \<and>
   profile_id bob = 2"
proof -
  have a: "bob \<in> set (profiles demo_world)" by (simp add: demo_world_def)
  have b: "\<exists>c \<in> set (profile_handle bob). isUpperAscii c" by code_simp
  have c: "distinct (map profile_id (profiles demo_world))" by code_simp
  have d: "map mention_user_id (new_mentions demo_world
      (snd (insertMentions 1 ''hi @Bob and @alice'' demo_world))) = [1]" by code_simp
  have e: "profile_id bob = 2" by (simp add: bob_def)
  from uppercase_handle_never_mentioned [OF a b c, of "''hi @Bob and @alice''" 1]
  have "bob \<notin> set (resolved_profiles demo_world ''hi @Bob and @alice'')" by simp
  with a b c d e show ?thesis by simp
qed

subsection \<open>What each enrichment call reads and writes\<close>

lemma hashtag_frame_refl: "hashtag_frame w w"
  by (simp add: hashtag_frame_def)

lemma hashtag_frame_trans: "hashtag_frame w w1 \<Longrightarrow> hashtag_frame w1 w2 \<Longrightarrow> hashtag_frame w w2"
  by (simp add: hashtag_frame_def)

lemma hashtags_insert_frame: "hashtag_frame w (snd (hashtags_insert w t))"
  by (simp add: hashtags_insert_def hashtag_frame_def Let_def)

lemma other_writers_frame: "hashtag_frame w (other_writers ts w)"
proof (induction ts arbitrary: w)
  case Nil
  show ?case by (simp add: hashtag_frame_refl)
next
  case (Cons t ts)
  from hashtags_insert_frame [of w t] Cons.IH [of "snd (hashtags_insert w t)"]
  show ?case by (simp add: hashtag_frame_trans)
qed

lemma insert_hashtag_frame: "hashtag_frame w (snd (insert_hashtag w t))"
  using hashtags_insert_frame [of w t]
  by (simp add: insert_hashtag_def hashtag_frame_refl split: option.splits)

lemma getOrCreateHashtag_snd:
  "snd (getOrCreateHashtag rivals tag w) = w \<or>
   snd (getOrCreateHashtag rivals tag w) =
     snd (insert_hashtag (other_writers rivals w) (toLowerCase tag))"
  by (simp add: getOrCreateHashtag_def Let_def split: sum.splits option.splits prod.splits)

lemma getOrCreateHashtag_frame: "hashtag_frame w (snd (getOrCreateHashtag rivals tag w))"
  using getOrCreateHashtag_snd [of rivals tag w] other_writers_frame [of w rivals]
    insert_hashtag_frame [of "other_writers rivals w" "toLowerCase tag"]
  by (auto simp: hashtag_frame_refl intro: hashtag_frame_trans)

lemma promise_all_hashtags_snd:
  "snd (promise_all_hashtags rivals (t # ts) w) =
   snd (promise_all_hashtags rivals ts (snd (getOrCreateHashtag rivals t w)))"
  by (simp split: prod.splits sum.splits)

lemma promise_all_hashtags_frame: "hashtag_frame w (snd (promise_all_hashtags rivals ts w))"
proof (induction ts arbitrary: w)
  case Nil
  show ?case by (simp add: hashtag_frame_refl)
next
  case (Cons t ts)
  from getOrCreateHashtag_frame [of w rivals t] Cons.IH [of "snd (getOrCreateHashtag rivals t w)"]
  have "hashtag_frame w (snd (promise_all_hashtags rivals ts (snd (getOrCreateHashtag rivals t w))))"
    by (rule hashtag_frame_trans)
  then show ?case by (simp only: promise_all_hashtags_snd)
qed

lemma upsert_post_hashtags_frame: "hashtag_frame w (snd (upsert_post_hashtags w rows))"
  by (simp add: upsert_post_hashtags_def hashtag_frame_def split: option.splits)

lemma console_error_hashtag_frame: "hashtag_frame w (console_error l e w)"
  by (simp add: console_error_def hashtag_frame_def)

lemma linkHashtags_frame: "hashtag_frame w (snd (linkHashtags rivals postId content w))"
proof (cases "array_from_set (parseHashtags content) = []")
  case True
  then show ?thesis by (simp add: linkHashtags_def hashtag_frame_refl)
next
  case False
  obtain r w1 where p: "promise_all_hashtags rivals (array_from_set (parseHashtags content)) w = (r, w1)"
    by (cases "promise_all_hashtags rivals (array_from_set (parseHashtags content)) w")
  from promise_all_hashtags_frame [of w rivals "array_from_set (parseHashtags content)"] p
  have f1: "hashtag_frame w w1" by simp
  show ?thesis
  proof (cases r)
    case (Inl e)
    with False p f1 show ?thesis by (simp add: linkHashtags_def)
  next
    case (Inr hs)
    obtain r2 w2 where u: "upsert_post_hashtags w1 (map (\<lambda>h. (postId, hashtag_id h)) hs) = (r2, w2)"
      by (cases "upsert_post_hashtags w1 (map (\<lambda>h. (postId, hashtag_id h)) hs)")
    from upsert_post_hashtags_frame [of w1 "map (\<lambda>h. (postId, hashtag_id h)) hs"] u
    have "hashtag_frame w1 w2" by simp
    with f1 have f2: "hashtag_frame w w2" by (rule hashtag_frame_trans)
    show ?thesis
    proof (cases r2)
      case (Inl e)
      from f2 console_error_hashtag_frame have "hashtag_frame w (console_error ''post_hashtags error:'' e w2)"
        by (rule hashtag_frame_trans)
      with False p Inr u Inl show ?thesis by (simp add: linkHashtags_def)
    next
      case (Inr x)
      with False p \<open>r = Inr hs\<close> u f2 show ?thesis by (simp add: linkHashtags_def)
    qed
  qed
qed

lemma insertMentions_frame: "mention_frame w (snd (insertMentions postId content w))"
  by (simp add: insertMentions_def Let_def select_profiles_in_def insert_mentions_def
      console_error_def mention_frame_def split: option.splits)

lemma insertMentions_reads:
  assumes "mention_view w = mention_view v"
  shows "mentions (snd (insertMentions postId content w)) =
         mentions (snd (insertMentions postId content v))"
  using assms
  by (simp add: insertMentions_def Let_def select_profiles_in_def insert_mentions_def
      console_error_def mention_view_def split: option.splits)

lemma select_link_preview_reads:
  "link_view w = link_view v \<Longrightarrow> select_link_preview w url = select_link_preview v url"
  by (simp add: select_link_preview_def link_view_def split: option.splits)

lemma insert_link_preview_reads:
  assumes "link_view w = link_view v"
  shows "fst (insert_link_preview w url) = fst (insert_link_preview v url) \<and>
         link_view (snd (insert_link_preview w url)) = link_view (snd (insert_link_preview v url))"
  using assms
  by (simp add: insert_link_preview_def link_view_def Let_def split: option.splits)

lemma console_error_link_view: "link_view (console_error l e w) = link_view w"
  by (simp add: console_error_def link_view_def)

lemma insert_link_preview_frame: "link_frame w (snd (insert_link_preview w url))"
  by (simp add: insert_link_preview_def link_frame_def Let_def split: option.splits)

lemma link_frame_refl: "link_frame w w"
  by (simp add: link_frame_def)

lemma link_frame_trans: "link_frame w w1 \<Longrightarrow> link_frame w1 w2 \<Longrightarrow> link_frame w w2"
  by (simp add: link_frame_def)

lemma console_error_link_frame: "link_frame w (console_error l e w)"
  by (simp add: console_error_def link_frame_def)

lemma linkUrls_loop_reads:
  assumes "link_view w = link_view v"
  shows "fst (linkUrls_loop urls ids w) = fst (linkUrls_loop urls ids v) \<and>
         link_view (snd (linkUrls_loop urls ids w)) = link_view (snd (linkUrls_loop urls ids v))"
  using assms
proof (induction urls arbitrary: ids w v)
  case Nil
  then show ?case by simp
next
  case (Cons url urls)
  note view = Cons.prems
  have sel: "select_link_preview w url = select_link_preview v url"
    using view by (rule select_link_preview_reads)
  show ?case
  proof (cases "\<exists>existing. select_link_preview v url = Inr (Some existing)")
    case True
    then obtain existing where ex: "select_link_preview v url = Inr (Some existing)" by auto
    from Cons.IH [OF view, of "ids @ [link_preview_id existing]"] sel ex
    show ?thesis by simp
  next
    case False
    obtain r w1 where iw: "insert_link_preview w url = (r, w1)"
      by (cases "insert_link_preview w url")
    obtain r' v1 where iv: "insert_link_preview v url = (r', v1)"
      by (cases "insert_link_preview v url")
    from insert_link_preview_reads [OF view, of url] iw iv
    have rr: "r' = r" and view1: "link_view w1 = link_view v1" by simp_all
    have step_w: "linkUrls_loop (url # urls) ids w =
       (case r of Inl error \<Rightarrow> linkUrls_loop urls ids (console_error ''link_previews insert error:'' error w1)
        | Inr created \<Rightarrow> linkUrls_loop urls (ids @ [link_preview_id created]) w1)"
      using False sel iw by (auto split: sum.splits option.splits)
    have step_v: "linkUrls_loop (url # urls) ids v =
       (case r of Inl error \<Rightarrow> linkUrls_loop urls ids (console_error ''link_previews insert error:'' error v1)
        | Inr created \<Rightarrow> linkUrls_loop urls (ids @ [link_preview_id created]) v1)"
      using False iv rr by (auto split: sum.splits option.splits)
    show ?thesis
    proof (cases r)
      case (Inl e)
      have "link_view (console_error ''link_previews insert error:'' e w1) =
            link_view (console_error ''link_previews insert error:'' e v1)"
        using view1 by (simp add: console_error_link_view)
      from Cons.IH [OF this, of ids] step_w step_v Inl show ?thesis by simp
    next
      case (Inr created)
      from Cons.IH [OF view1, of "ids @ [link_preview_id created]"] step_w step_v Inr
      show ?thesis by simp
    qed
  qed
qed

lemma linkUrls_loop_frame: "link_frame w (snd (linkUrls_loop urls ids w))"
proof (induction urls arbitrary: ids w)
  case Nil
  show ?case by (simp add: link_frame_refl)
next
  case (Cons url urls)
  show ?case
  proof (cases "\<exists>existing. select_link_preview w url = Inr (Some existing)")
    case True
    then obtain existing where ex: "select_link_preview w url = Inr (Some existing)" by auto
    from Cons.IH [of w "ids @ [link_preview_id existing]"] ex show ?thesis by simp
  next
    case False
    obtain r w1 where iw: "insert_link_preview w url = (r, w1)"
      by (cases "insert_link_preview w url")
    from insert_link_preview_frame [of w url] iw have f1: "link_frame w w1" by simp
    have step_w: "linkUrls_loop (url # urls) ids w =
       (case r of Inl error \<Rightarrow> linkUrls_loop urls ids (console_error ''link_previews insert error:'' error w1)
        | Inr created \<Rightarrow> linkUrls_loop urls (ids @ [link_preview_id created]) w1)"
      using False iw by (auto split: sum.splits option.splits)
    show ?thesis
    proof (cases r)
      case (Inl e)
      from f1 console_error_link_frame
      have "link_frame w (console_error ''link_previews insert error:'' e w1)"
        by (rule link_frame_trans)
      from this Cons.IH [of "console_error ''link_previews insert error:'' e w1" ids]
      have "link_frame w (snd (linkUrls_loop urls ids (console_error ''link_previews insert error:'' e w1)))"
        by (rule link_frame_trans)
      with step_w Inl show ?thesis by simp
    next
      case (Inr created)
      from f1 Cons.IH [of w1 "ids @ [link_preview_id created]"]
      have "link_frame w (snd (linkUrls_loop urls (ids @ [link_preview_id created]) w1))"
        by (rule link_frame_trans)
      with step_w Inr show ?thesis by simp
    qed
  qed
qed

lemma upsert_post_links_frame: "link_frame w (snd (upsert_post_links w rows))"
  by (simp add: upsert_post_links_def link_frame_def split: option.splits)

lemma upsert_post_links_reads:
  assumes "link_view w = link_view v"
  shows "fst (upsert_post_links w rows) = fst (upsert_post_links v rows) \<and>
         link_view (snd (upsert_post_links w rows)) = link_view (snd (upsert_post_links v rows))"
  using assms
  by (auto simp: upsert_post_links_def link_view_def split: option.splits)

lemma linkUrls_frame: "link_frame w (snd (linkUrls postId content w))"
proof (cases "array_from_set (parseUrls content) = []")
  case True
  then show ?thesis by (simp add: linkUrls_def link_frame_refl)
next
  case False
  obtain ids w1 where l: "linkUrls_loop (array_from_set (parseUrls content)) [] w = (ids, w1)"
    by (cases "linkUrls_loop (array_from_set (parseUrls content)) [] w")
  from linkUrls_loop_frame [of w "array_from_set (parseUrls content)" "[]"] l
  have f1: "link_frame w w1" by simp
  show ?thesis
  proof (cases "ids = []")
    case True
    with False l f1 show ?thesis by (simp add: linkUrls_def)
  next
    case ne: False
    obtain r2 w2 where u: "upsert_post_links w1 (map (\<lambda>i. (postId, i)) ids) = (r2, w2)"
      by (cases "upsert_post_links w1 (map (\<lambda>i. (postId, i)) ids)")
    from upsert_post_links_frame [of w1 "map (\<lambda>i. (postId, i)) ids"] u
    have "link_frame w1 w2" by simp
    with f1 have f2: "link_frame w w2" by (rule link_frame_trans)
    show ?thesis
    proof (cases r2)
      case (Inl e)
      from f2 console_error_link_frame
      have "link_frame w (console_error ''post_links upsert error:'' e w2)"
        by (rule link_frame_trans)
      with False l ne u Inl show ?thesis by (simp add: linkUrls_def)
    next
      case (Inr x)
      with False l ne u f2 show ?thesis by (simp add: linkUrls_def)
    qed
  qed
qed

lemma linkUrls_reads:
  assumes "link_view w = link_view v"
  shows "link_view (snd (linkUrls postId content w)) = link_view (snd (linkUrls postId content v))"
proof (cases "array_from_set (parseUrls content) = []")
  case True
  with assms show ?thesis by (simp add: linkUrls_def)
next
  case False
  obtain ids w1 where lw: "linkUrls_loop (array_from_set (parseUrls content)) [] w = (ids, w1)"
    by (cases "linkUrls_loop (array_from_set (parseUrls content)) [] w")
  obtain ids' v1 where lv: "linkUrls_loop (array_from_set (parseUrls content)) [] v = (ids', v1)"
    by (cases "linkUrls_loop (array_from_set (parseUrls content)) [] v")
  from linkUrls_loop_reads [OF assms, of "array_from_set (parseUrls content)" "[]"] lw lv
  have same: "ids' = ids" and view1: "link_view w1 = link_view v1" by simp_all
  show ?thesis
  proof (cases "ids = []")
    case True
    with False lw lv same view1 show ?thesis by (simp add: linkUrls_def)
  next
    case ne: False
    obtain r2 w2 where uw: "upsert_post_links w1 (map (\<lambda>i. (postId, i)) ids) = (r2, w2)"
      by (cases "upsert_post_links w1 (map (\<lambda>i. (postId, i)) ids)")
    obtain r2' v2 where uv: "upsert_post_links v1 (map (\<lambda>i. (postId, i)) ids) = (r2', v2)"
      by (cases "upsert_post_links v1 (map (\<lambda>i. (postId, i)) ids)")
    from upsert_post_links_reads [OF view1, of "map (\<lambda>i. (postId, i)) ids"] uw uv
    have rr: "r2' = r2" and view2: "link_view w2 = link_view v2" by simp_all
    show ?thesis
    proof (cases r2)
      case (Inl e)
      with False lw lv same ne uw uv rr view2 show ?thesis
        by (simp add: linkUrls_def console_error_link_view)
    next
      case (Inr x)
      with False lw lv same ne uw uv rr view2 show ?thesis
        by (simp add: linkUrls_def)
    qed
  qed
qed

section \<open>Post Lifecycle Manager\<close>

lemma createPost_unfold:
  assumes "insert_post w userId content (or_null imageUrl) = (Inr post, w0)"
  shows "createPost rivals userId content imageUrl w =
     (Inr post, snd (linkUrls (post_id post) content
        (snd (insertMentions (post_id post) content
           (snd (linkHashtags rivals (post_id post) content w0))))))"
  using assms by (simp add: createPost_def split: prod.splits)

lemma insert_post_member:
  assumes "insert_post w userId content image_url = (Inr post, w0)"
  shows "post \<in> set (posts w0)"
proof (cases "fault w Posts Insert")
  case None
  with assms show ?thesis
    by (auto simp: insert_post_def Let_def split: if_splits)
next
  case (Some e)
  with assms show ?thesis by (simp add: insert_post_def)
qed

lemma demo_insert_post:
  "insert_post refusing_world 1 greeting (or_null None) = (Inr new_post, posted_world)"
proof -
  have i: "fresh_uuid (map post_id (posts refusing_world)) = 7" by code_simp
  have c: "clock refusing_world = 100" by (simp add: refusing_world_def demo_world_def)
  have f: "fault refusing_world Posts Insert = None" by (simp add: refusing_world_def)
  have n: "0 < length greeting \<and> length greeting \<le> 280" by (simp add: greeting_def)
  have v: "valid_text greeting" by code_simp
  have u: "1 \<in> set (map profile_id (profiles refusing_world))"
    by (simp add: refusing_world_def demo_world_def alice_def)
  from i c f n v u show ?thesis
    by (simp add: insert_post_def Let_def new_post_def posted_world_def or_null_def)
qed

lemma demo_hashtags_fail: "fst (linkHashtags [] 7 greeting posted_world) = Inl Refused"
  by code_simp

lemma demo_console:
  "console (snd (createPost [] 1 greeting None refusing_world)) =
     [(''mentions insert error:'', Refused), (''link_previews insert error:'', Refused)]"
  by code_simp

text \<open>
  Claim C2. Whenever the insert of the post succeeds, \<open>createPost\<close> returns the inserted
  post, which is and stays in \<open>posts\<close>, whatever the three enrichment calls do. No
  enrichment outcome reaches the result, and the calls are isolated: the hashtag tables,
  the mention table and the link tables end as \<open>linkHashtags\<close>, \<open>insertMentions\<close> and
  \<open>linkUrls\<close> each leave them when run alone behind the insert, whether or not another
  one failed.
\<close>

theorem createPost_returns_post:
  assumes "insert_post w userId content (or_null imageUrl) = (Inr post, w0)"
  shows "fst (createPost rivals userId content imageUrl w) = Inr post \<and>
     post \<in> set (posts (snd (createPost rivals userId content imageUrl w))) \<and>
     posts (snd (createPost rivals userId content imageUrl w)) = posts w0 \<and>
     hashtags (snd (createPost rivals userId content imageUrl w)) =
       hashtags (snd (linkHashtags rivals (post_id post) content w0)) \<and>
     post_hashtags (snd (createPost rivals userId content imageUrl w)) =
       post_hashtags (snd (linkHashtags rivals (post_id post) content w0)) \<and>
     mentions (snd (createPost rivals userId content imageUrl w)) =
       mentions (snd (insertMentions (post_id post) content w0)) \<and>
     link_previews (snd (createPost rivals userId content imageUrl w)) =
       link_previews (snd (linkUrls (post_id post) content w0)) \<and>
     post_links (snd (createPost rivals userId content imageUrl w)) =
       post_links (snd (linkUrls (post_id post) content w0))"
proof -
  let ?p = "post_id post"
  let ?w1 = "snd (linkHashtags rivals ?p content w0)"
  let ?w2 = "snd (insertMentions ?p content ?w1)"
  let ?w3 = "snd (linkUrls ?p content ?w2)"
  have cp: "createPost rivals userId content imageUrl w = (Inr post, ?w3)"
    using assms by (rule createPost_unfold)
  have h: "hashtag_frame w0 ?w1" by (rule linkHashtags_frame)
  have m: "mention_frame ?w1 ?w2" by (rule insertMentions_frame)
  have l: "link_frame ?w2 ?w3" by (rule linkUrls_frame)
  have mem: "post \<in> set (posts w0)" using assms by (rule insert_post_member)
  have posts3: "posts ?w3 = posts w0"
    using h m l by (simp add: hashtag_frame_def mention_frame_def link_frame_def)
  have tags3: "hashtags ?w3 = hashtags ?w1 \<and> post_hashtags ?w3 = post_hashtags ?w1"
    using m l by (simp add: mention_frame_def link_frame_def)
  have "mention_view ?w1 = mention_view w0"
    using h by (simp add: hashtag_frame_def mention_view_def)
  then have "mentions ?w2 = mentions (snd (insertMentions ?p content w0))"
    by (rule insertMentions_reads)
  moreover have "mentions ?w3 = mentions ?w2"
    using l by (simp add: link_frame_def)
  ultimately have ment3: "mentions ?w3 = mentions (snd (insertMentions ?p content w0))"
    by simp
  have "link_view ?w2 = link_view w0"
    using h m by (simp add: hashtag_frame_def mention_frame_def link_view_def)
  then have "link_view ?w3 = link_view (snd (linkUrls ?p content w0))"
    by (rule linkUrls_reads)
  then have links3: "link_previews ?w3 = link_previews (snd (linkUrls ?p content w0)) \<and>
      post_links ?w3 = post_links (snd (linkUrls ?p content w0))"
    by (simp add: link_view_def)
  from mem posts3 tags3 ment3 links3 show ?thesis
    by (simp add: cp)
qed

theorem createPost_returns_post_witness:
  "insert_post refusing_world 1 greeting (or_null None) = (Inr new_post, posted_world) \<and>
   fst (linkHashtags [] 7 greeting posted_world) = Inl Refused \<and>
   console (snd (createPost [] 1 greeting None refusing_world)) =
     [(''mentions insert error:'', Refused), (''link_previews insert error:'', Refused)] \<and>
   fst (createPost [] 1 greeting None refusing_world) = Inr new_post \<and>
   new_post \<in> set (posts (snd (createPost [] 1 greeting None refusing_world)))"
proof -
  note t = createPost_returns_post [OF demo_insert_post, of "[]"]
  from t have a: "fst (createPost [] 1 greeting None refusing_world) = Inr new_post"
    by (rule conjunct1)
  from t have b: "new_post \<in> set (posts (snd (createPost [] 1 greeting None refusing_world)))"
    by (elim conjE)
  from demo_insert_post demo_hashtags_fail demo_console a b show ?thesis
    by (intro conjI)
qed

end
